theory Spec2Isabelle
  imports Complex_Main "HOL-Library.Word" "HOL-Library.Sublist"
begin

section \<open>The world outside the engine\<close>

text \<open>
  The engine (class \<open>FileShredder\<close>) talks to the file system through the synchronous calls
  of Node's \<open>fs\<close> module. Each call is a value of \<open>syscall\<close>; a file descriptor is
  identified with the path it was opened from.  \<open>WriteSync p pat len pos\<close> is
  \<open>fs.writeSync(fd, buffer, 0, len, pos)\<close> with a buffer filled with the byte \<open>pat\<close>
  (\<open>None\<close>: random data).
\<close>

datatype syscall =
    ExistsSync string
  | StatSync string
  | ReaddirSync string
  | OpenSync string
  | WriteSync string "nat option" nat nat
  | FsyncSync string
  | CloseSync string
  | RenameSync string string
  | UnlinkSync string
  | RmdirSync string
  | CreateSecureTempDir
  | CleanupTempDir

text \<open>
  The exceptions of the engine.  \<open>FsError c\<close> is the exception thrown by the failed call
  \<open>c\<close>; the others are the \<open>new Error(...)\<close> of the source, named after their message.
\<close>

datatype error =
    FsError syscall
  | FileNotExist string
  | DirNotExist string
  | IllegalPath
  | FileTooLarge nat
  | NoTempDir
  | UnknownMethod
  | ShredDirFailed error

text \<open>
  What an observer sees of a run, in order: every call to the file system with its outcome
  (\<open>True\<close>: it returned, or for \<open>ExistsSync\<close> and the temporary-directory helpers, it
  returned a truthy value), every request for random bytes with its size, every entry into
  \<open>overwriteFileWithPattern\<close> with its pattern and progress window, every value handed to
  the caller's progress callback, and every \<open>console.error\<close>.
\<close>

datatype event =
    Call syscall bool
  | RandomData nat
  | OverwritePass string "nat option" rat rat
  | Progress int
  | ConsoleError error

text \<open>
  The environment answers each call as a function of the call: \<open>ok\<close> says whether it
  succeeds, \<open>err_code\<close> is the \<open>error.code\<close> of its exception when it does not,
  \<open>size_of\<close> is \<open>fs.statSync(p).size\<close>, \<open>rnd key i j\<close> is byte \<open>j\<close> of the
  \<open>i\<close>-th random name drawn while renaming \<open>key\<close>.  The functions of Node's \<open>path\<close>
  module are parameters too.
\<close>

record env =
  ok :: "syscall \<Rightarrow> bool"
  err_code :: "syscall \<Rightarrow> string"
  size_of :: "string \<Rightarrow> nat"
  rnd :: "string \<Rightarrow> nat \<Rightarrow> nat \<Rightarrow> 8 word"
  path_join :: "string \<Rightarrow> string \<Rightarrow> string"
  path_dirname :: "string \<Rightarrow> string"
  path_extname :: "string \<Rightarrow> string"
  path_normalize :: "string \<Rightarrow> string"

subsection \<open>Computations: a trace and a result or an exception\<close>

type_synonym 'a io = "event list \<times> (error + 'a)"

definition return_io :: "'a \<Rightarrow> 'a io" where
  "return_io x = ([], Inr x)"

definition throw_io :: "error \<Rightarrow> 'a io" where
  "throw_io e = ([], Inl e)"

definition emit :: "event list \<Rightarrow> unit io" where
  "emit t = (t, Inr ())"

definition bind_io :: "'a io \<Rightarrow> ('a \<Rightarrow> 'b io) \<Rightarrow> 'b io" where
  "bind_io m f =
     (case m of
        (t, Inl e) \<Rightarrow> (t, Inl e)
      | (t, Inr x) \<Rightarrow> (case f x of (t', r) \<Rightarrow> (t @ t', r)))"

text \<open>\<open>try { m } catch (error) { h error }\<close>\<close>

definition catch_io :: "'a io \<Rightarrow> (error \<Rightarrow> 'a io) \<Rightarrow> 'a io" where
  "catch_io m h =
     (case m of
        (t, Inl e) \<Rightarrow> (case h e of (t', r) \<Rightarrow> (t @ t', r))
      | (t, Inr x) \<Rightarrow> (t, Inr x))"

text \<open>\<open>try { m } finally { fin }\<close>: an exception of \<open>fin\<close> replaces the outcome of \<open>m\<close>.\<close>

definition finally_io :: "'a io \<Rightarrow> unit io \<Rightarrow> 'a io" where
  "finally_io m fin =
     (case m of (t, r) \<Rightarrow>
        (case fin of
           (t', Inl e') \<Rightarrow> (t @ t', Inl e')
         | (t', Inr u) \<Rightarrow> (t @ t', r)))"

text \<open>A call that throws when the environment refuses it.\<close>

definition sys :: "env \<Rightarrow> syscall \<Rightarrow> unit io" where
  "sys E c = ([Call c (ok E c)], if ok E c then Inr () else Inl (FsError c))"

text \<open>A call that returns a boolean and never throws (\<open>fs.existsSync\<close>).\<close>

definition ask :: "env \<Rightarrow> syscall \<Rightarrow> bool io" where
  "ask E c = ([Call c (ok E c)], Inr (ok E c))"

text \<open>\<open>for (const x of xs) { body x }\<close>, and \<open>for (let i = 0; i < n; i++)\<close> over \<open>[0..<n]\<close>.\<close>

primrec forEach :: "'a list \<Rightarrow> ('a \<Rightarrow> unit io) \<Rightarrow> unit io" where
  "forEach [] body = return_io ()"
| "forEach (x # xs) body = bind_io (body x) (\<lambda>u. forEach xs body)"

section \<open>JavaScript numbers\<close>

text \<open>
  A JavaScript number is an IEEE 754 double.  A finite double is modelled by the rational
  number it denotes, and an arithmetic operation returns the exact result rounded to the
  nearest double, ties to the even significand (\<open>fl\<close>).  A positive \<open>x\<close> with
  \<open>2^e \<le> x < 2^(e+1)\<close> is rounded to a multiple of \<open>2^(e-52)\<close>: a significand of 53
  bits.  The exponent range of the format is not modelled: the quantities of this program
  are quotients and products of sizes, counters and percentages and stay far from its
  limits.

  Sizes, offsets and counters are integers.  Every integer up to \<open>2^53\<close> is a double and
  integer arithmetic on doubles is exact in that range, so these quantities are modelled by
  \<open>nat\<close>.
\<close>

definition pow2 :: "int \<Rightarrow> rat" where
  "pow2 e = (if 0 \<le> e then 2 ^ nat e else 1 / 2 ^ nat (- e))"

text \<open>The exponent of a positive number: \<open>2^(expo x) \<le> x < 2^(expo x + 1)\<close>.\<close>

function expo :: "rat \<Rightarrow> int" where
  "expo x = (if 2 \<le> x then expo (x / 2) + 1
             else if 0 < x \<and> x < 1 then expo (x * 2) - 1
             else 0)"
  by pat_completeness auto
termination
proof (relation "measure (\<lambda>x. nat \<lfloor>x\<rfloor> + 2 * nat \<lceil>1 / x\<rceil>)")
  show "wf (measure (\<lambda>x::rat. nat \<lfloor>x\<rfloor> + 2 * nat \<lceil>1 / x\<rceil>))" by simp
next
  fix x :: rat
  assume x: "2 \<le> x"
  have c1: "\<lceil>1 / x\<rceil> = 1"
    using x by (intro ceiling_unique) (simp_all add: field_simps)
  have c2: "\<lceil>1 / (x / 2)\<rceil> = 1"
    using x by (intro ceiling_unique) (simp_all add: field_simps)
  have "x / 2 \<le> x - 1" using x by simp
  then have "\<lfloor>x / 2\<rfloor> \<le> \<lfloor>x - 1\<rfloor>" by (rule floor_mono)
  then have f: "\<lfloor>x / 2\<rfloor> < \<lfloor>x\<rfloor>" by simp
  have p: "0 \<le> \<lfloor>x / 2\<rfloor>" using x by simp
  have "nat \<lfloor>x / 2\<rfloor> < nat \<lfloor>x\<rfloor>" using f p by linarith
  then show "(x / 2, x) \<in> measure (\<lambda>x. nat \<lfloor>x\<rfloor> + 2 * nat \<lceil>1 / x\<rceil>)"
    unfolding in_measure c1 c2 by simp
next
  fix x :: rat
  assume "\<not> 2 \<le> x" and x: "0 < x \<and> x < 1"
  have f0: "\<lfloor>x\<rfloor> = 0" using x by (intro floor_unique) simp_all
  have f1: "\<lfloor>x * 2\<rfloor> \<le> 1"
  proof -
    have "x * 2 < 2" using x by simp
    then have "\<lfloor>x * 2\<rfloor> < 2" by (simp add: floor_less_iff)
    then show ?thesis by simp
  qed
  have y: "1 < 1 / x" using x by (simp add: field_simps)
  then have c: "2 \<le> \<lceil>1 / x\<rceil>" by (simp add: le_ceiling_iff)
  have "1 / (x * 2) \<le> of_int (\<lceil>1 / x\<rceil> - 1)"
  proof -
    have "1 / x \<le> of_int \<lceil>1 / x\<rceil>" by (rule le_of_int_ceiling)
    then have "1 / (x * 2) \<le> of_int \<lceil>1 / x\<rceil> / 2" by simp
    also have "\<dots> \<le> of_int (\<lceil>1 / x\<rceil> - 1)"
    proof -
      have "(2::rat) \<le> of_int \<lceil>1 / x\<rceil>" using c by (metis of_int_le_iff of_int_numeral)
      then show ?thesis by simp
    qed
    finally show ?thesis .
  qed
  then have c': "\<lceil>1 / (x * 2)\<rceil> \<le> \<lceil>1 / x\<rceil> - 1" by (simp only: ceiling_le_iff)
  have "0 \<le> 1 / (x * 2)" using x by simp
  then have "\<lceil>0 :: rat\<rceil> \<le> \<lceil>1 / (x * 2)\<rceil>" by (rule ceiling_mono)
  then have p: "0 \<le> \<lceil>1 / (x * 2)\<rceil>" by simp
  have "nat \<lfloor>x * 2\<rfloor> + 2 * nat \<lceil>1 / (x * 2)\<rceil> < nat \<lfloor>x\<rfloor> + 2 * nat \<lceil>1 / x\<rceil>"
    using f0 f1 c c' p by linarith
  then show "(x * 2, x) \<in> measure (\<lambda>x. nat \<lfloor>x\<rfloor> + 2 * nat \<lceil>1 / x\<rceil>)"
    unfolding in_measure .
qed

declare expo.simps [simp del]

text \<open>Rounding to the nearest integer, ties to the even one.\<close>

definition rne :: "rat \<Rightarrow> int" where
  "rne q = (let f = \<lfloor>q\<rfloor>; r = q - of_int f
            in if r < 1 / 2 then f else if 1 / 2 < r then f + 1 else if even f then f else f + 1)"

definition fl_pos :: "rat \<Rightarrow> rat" where
  "fl_pos x = (let u = pow2 (expo x - 52) in of_int (rne (x / u)) * u)"

text \<open>The double nearest to a number.\<close>

definition fl :: "rat \<Rightarrow> rat" where
  "fl x = (if x = 0 then 0 else if 0 < x then fl_pos x else - fl_pos (- x))"

text \<open>
  The operators \<open>+\<close>, \<open>-\<close>, \<open>*\<close> and \<open>/\<close> on numbers.  No divisor of the program is \<open>0\<close>
  where these are used (the one division by zero, for an empty file, is treated where it
  occurs).
\<close>

definition js_add :: "rat \<Rightarrow> rat \<Rightarrow> rat" where
  "js_add x y = fl (x + y)"

definition js_sub :: "rat \<Rightarrow> rat \<Rightarrow> rat" where
  "js_sub x y = fl (x - y)"

definition js_mul :: "rat \<Rightarrow> rat \<Rightarrow> rat" where
  "js_mul x y = fl (x * y)"

definition js_div :: "rat \<Rightarrow> rat \<Rightarrow> rat" where
  "js_div x y = fl (x / y)"

text \<open>
  \<open>Math.round\<close> returns the integer nearest to its argument, the larger one of two
  equally near; \<open>Math.floor\<close> is \<open>\<lfloor>_\<rfloor>\<close>.  Both are exact.
\<close>

definition Math_round :: "rat \<Rightarrow> int" where
  "Math_round x = \<lfloor>x + 1 / 2\<rfloor>"

section \<open>PassExecutor: \<open>overwriteFileWithPattern\<close>\<close>

text \<open>\<open>Utils.generateSecureRandomData(size)\<close>: only the request is observed.\<close>

definition generateSecureRandomData :: "nat \<Rightarrow> unit io" where
  "generateSecureRandomData n = emit [RandomData n]"

text \<open>
  The progress callback is \<open>null\<close> or a function.  The only effect of the callbacks of this
  program is to hand progress values on to the caller: a callback is the list of values it
  reports when called.  \<open>if (progressCallback) progressCallback(v)\<close> is \<open>call_cb\<close>, and
  \<open>report\<close> is the caller's callback, which records the value it is given.
\<close>

type_synonym callback = "(int \<Rightarrow> int list) option"

definition call_cb :: "callback \<Rightarrow> int \<Rightarrow> unit io" where
  "call_cb cb v = (case cb of None \<Rightarrow> return_io () | Some f \<Rightarrow> emit (map Progress (f v)))"

definition report :: "int \<Rightarrow> int list" where
  "report v = [v]"

text \<open>
  One iteration of the loop over the full buffers (lines 327-345).  The
  \<open>await new Promise(setTimeout)\<close> every tenth chunk has no effect on the trace.
\<close>

definition write_chunk ::
  "env \<Rightarrow> string \<Rightarrow> nat option \<Rightarrow> callback \<Rightarrow> rat \<Rightarrow> rat \<Rightarrow> nat \<Rightarrow> nat \<Rightarrow> nat \<Rightarrow> unit io" where
  "write_chunk E filePath pattern progressCallback startProgress endProgress fileSize bufferSize i =
     bind_io (if pattern = None then generateSecureRandomData bufferSize else return_io ()) (\<lambda>u.
     bind_io (sys E (WriteSync filePath pattern bufferSize (i * bufferSize))) (\<lambda>u.
     call_cb progressCallback
       (Math_round (js_add startProgress (js_mul (js_sub endProgress startProgress)
          (js_div (of_nat ((i + 1) * bufferSize)) (of_nat fileSize)))))))"

text \<open>
  \<open>bufferSize = Math.min(1024 * 1024, fileSize)\<close> is \<open>0\<close> exactly when the file is empty;
  then \<open>fileSize / bufferSize\<close> is \<open>0 / 0 = NaN\<close>, \<open>Math.floor(NaN)\<close> and \<open>0 % 0\<close> are
  \<open>NaN\<close> (here \<open>None\<close>), and both \<open>i < NaN\<close> and \<open>NaN > 0\<close> are false.
\<close>

definition overwriteFileWithPattern ::
  "env \<Rightarrow> string \<Rightarrow> nat option \<Rightarrow> callback \<Rightarrow> rat \<Rightarrow> rat \<Rightarrow> unit io" where
  "overwriteFileWithPattern E filePath pattern progressCallback startProgress endProgress =
     bind_io (emit [OverwritePass filePath pattern startProgress endProgress]) (\<lambda>u.
     bind_io (sys E (StatSync filePath)) (\<lambda>u.
     let fileSize = size_of E filePath;
         bufferSize = min (1024 * 1024) fileSize
     in
     bind_io (sys E (OpenSync filePath)) (\<lambda>u.
     finally_io
       (let fullBuffers = (if bufferSize = 0 then None else Some (fileSize div bufferSize));
            remainingBytes = (if bufferSize = 0 then None else Some (fileSize mod bufferSize))
        in
        bind_io (if pattern = None then generateSecureRandomData bufferSize else return_io ()) (\<lambda>u.
        bind_io (forEach (case fullBuffers of None \<Rightarrow> [] | Some n \<Rightarrow> [0..<n])
                   (write_chunk E filePath pattern progressCallback startProgress endProgress
                      fileSize bufferSize)) (\<lambda>u.
        bind_io (case (fullBuffers, remainingBytes) of
                   (Some n, Some r) \<Rightarrow>
                     if r > 0 then
                       bind_io (if pattern = None then generateSecureRandomData r else return_io ()) (\<lambda>u.
                       sys E (WriteSync filePath pattern r (n * bufferSize)))
                     else return_io ()
                 | _ \<Rightarrow> return_io ()) (\<lambda>u.
        sys E (FsyncSync filePath)))))
       (sys E (CloseSync filePath)))))"

section \<open>PatternProvider and the three wipes\<close>

text \<open>
  An entry of \<open>this.gutmannPatterns\<close>: its \<open>pattern\<close> field is the string
  \<open>'random'\<close> or a number.  The \<open>description\<close> field is a label that no code reads and
  is left out.
\<close>

datatype pattern_entry = PRandom | PByte nat

definition gutmannPatterns :: "pattern_entry list" where
  "gutmannPatterns =
     [PRandom, PRandom, PRandom, PRandom,
      PByte 0x55, PByte 0xAA, PByte 0x92, PByte 0x49, PByte 0x24, PByte 0x92, PByte 0x49,
      PByte 0x24, PByte 0x55, PByte 0xAA, PByte 0x92, PByte 0x49, PByte 0x24, PByte 0x92,
      PByte 0x49, PByte 0x24, PByte 0x55, PByte 0xAA, PByte 0x92, PByte 0x49, PByte 0x24,
      PByte 0x92, PByte 0x49, PByte 0x24, PByte 0x55, PByte 0xAA, PByte 0x92,
      PRandom, PRandom, PRandom, PRandom]"

text \<open>\<open>pattern.pattern === 'random' ? null : pattern.pattern\<close>\<close>

definition patternValue :: "pattern_entry \<Rightarrow> nat option" where
  "patternValue p = (case p of PRandom \<Rightarrow> None | PByte b \<Rightarrow> Some b)"

text \<open>The body of a \<open>for (let i = 0; i < patterns.length; i++)\<close> over a pattern list.\<close>

definition wipe_step ::
  "env \<Rightarrow> string \<Rightarrow> callback \<Rightarrow> nat option list \<Rightarrow> nat \<Rightarrow> unit io" where
  "wipe_step E filePath progressCallback patterns i =
     (let totalOperations = length patterns;
          progressStart = js_mul (js_div (of_nat i) (of_nat totalOperations)) 100;
          progressEnd = js_mul (js_div (of_nat (i + 1)) (of_nat totalOperations)) 100
      in overwriteFileWithPattern E filePath (patterns ! i) progressCallback progressStart progressEnd)"

definition performQuickWipe :: "env \<Rightarrow> string \<Rightarrow> callback \<Rightarrow> unit io" where
  "performQuickWipe E filePath progressCallback =
     catch_io (overwriteFileWithPattern E filePath None progressCallback 0 100) throw_io"

definition performDoDWipeInternal :: "env \<Rightarrow> string \<Rightarrow> callback \<Rightarrow> unit io" where
  "performDoDWipeInternal E filePath progressCallback =
     (let patterns = [Some 0, Some 255, None]
      in forEach [0..<length patterns] (wipe_step E filePath progressCallback patterns))"

definition performDoDWipe :: "env \<Rightarrow> string \<Rightarrow> callback \<Rightarrow> unit io" where
  "performDoDWipe E filePath progressCallback =
     catch_io (performDoDWipeInternal E filePath progressCallback) throw_io"

definition performGutmannWipe :: "env \<Rightarrow> string \<Rightarrow> callback \<Rightarrow> unit io" where
  "performGutmannWipe E filePath progressCallback =
     catch_io
       (forEach [0..<length gutmannPatterns]
          (wipe_step E filePath progressCallback (map patternValue gutmannPatterns)))
       throw_io"

section \<open>ValidationGate: \<open>Utils.validateFilePath\<close>\<close>

text \<open>
  JavaScript values, as far as \<open>!v\<close> needs them: \<open>ToBoolean\<close> is the coercion of the
  language (a number is an integer here; \<open>NaN\<close> does not occur).
\<close>

datatype 'a js_value =
    JUndefined
  | JNull
  | JBoolean bool
  | JNumber int
  | JString string
  | JObject 'a

fun ToBoolean :: "'a js_value \<Rightarrow> bool" where
  "ToBoolean JUndefined = False"
| "ToBoolean JNull = False"
| "ToBoolean (JBoolean b) = b"
| "ToBoolean (JNumber n) = (n \<noteq> 0)"
| "ToBoolean (JString s) = (s \<noteq> [])"
| "ToBoolean (JObject x) = True"

text \<open>The reasons pushed onto \<open>result.errors\<close>, named after their messages.\<close>

datatype reason = EmptyPath | NotFound | SystemCritical | Locked | PathTooLong

record validation =
  isValid :: bool
  errors :: "reason list"

text \<open>
  A string of the model is a JavaScript string whose code units are below 256, each
  \<open>char\<close> being one code unit.  \<open>String.prototype.trim\<close> strips white space and line
  terminators; those below 256 are the code units 9 to 13, 32 and 160 (no-break space).
  \<open>toLowerCase\<close> maps \<open>A\<close> to \<open>Z\<close> and the capital letters 192 to 222 of Latin-1
  (215, the multiplication sign, apart) to the code unit 32 above.
\<close>

definition is_space :: "char \<Rightarrow> bool" where
  "is_space c = (of_char c \<in> {9, 10, 11, 12, 13, 32, 160 :: nat})"

definition js_trim :: "string \<Rightarrow> string" where
  "js_trim s = rev (dropWhile is_space (rev (dropWhile is_space s)))"

definition lower_char :: "char \<Rightarrow> char" where
  "lower_char c =
     (let n = (of_char c :: nat)
      in if (65 \<le> n \<and> n \<le> 90) \<or> (192 \<le> n \<and> n \<le> 222 \<and> n \<noteq> 215) then char_of (n + 32) else c)"

definition toLowerCase :: "string \<Rightarrow> string" where
  "toLowerCase s = map lower_char s"

definition backslash :: char where
  "backslash = CHR 0x5C"

definition systemPaths :: "string list" where
  "systemPaths =
     [''c:'' @ [backslash] @ ''windows'',
      ''c:'' @ [backslash] @ ''program files'',
      ''c:'' @ [backslash] @ ''program files (x86)'',
      ''c:'' @ [backslash] @ ''programdata'',
      ''c:'' @ [backslash] @ ''users'' @ [backslash] @ ''default'',
      ''c:'' @ [backslash] @ ''users'' @ [backslash] @ ''public'',
      ''c:'' @ [backslash] @ ''recovery'',
      ''c:'' @ [backslash] @ ''system volume information'']"

definition systemExtensions :: "string list" where
  "systemExtensions =
     [''.sys'', ''.dll'', ''.exe'', ''.bat'', ''.cmd'', ''.com'', ''.scr'',
      ''.cpl'', ''.msc'', ''.msp'', ''.msi'', ''.ps1'', ''.vbs'', ''.js'',
      ''.reg'', ''.inf'', ''.ini'', ''.log'', ''.evt'', ''.evtx'']"

definition isSystemCriticalFile :: "env \<Rightarrow> string \<Rightarrow> bool" where
  "isSystemCriticalFile E filePath =
     (let normalizedPath = toLowerCase (path_normalize E filePath) in
      if list_ex (\<lambda>sysPath. prefix sysPath normalizedPath) systemPaths then True
      else if path_extname E normalizedPath \<in> set systemExtensions
              \<and> list_ex (\<lambda>sysPath. prefix sysPath normalizedPath) systemPaths then True
      else False)"

fun error_code :: "env \<Rightarrow> error \<Rightarrow> string option" where
  "error_code E (FsError c) = Some (err_code E c)"
| "error_code E e = None"

definition isFileLocked :: "env \<Rightarrow> string \<Rightarrow> bool io" where
  "isFileLocked E filePath =
     catch_io
       (bind_io (sys E (OpenSync filePath)) (\<lambda>u.
        bind_io (sys E (CloseSync filePath)) (\<lambda>u.
        return_io False)))
       (\<lambda>error. return_io (error_code E error = Some ''EBUSY'' \<or> error_code E error = Some ''EPERM''))"

definition pathExists :: "env \<Rightarrow> string \<Rightarrow> bool io" where
  "pathExists E filePath = catch_io (ask E (ExistsSync filePath)) (\<lambda>error. return_io False)"

definition validateFilePath :: "env \<Rightarrow> string \<Rightarrow> validation io" where
  "validateFilePath E filePath =
     (if \<not> ToBoolean (JString filePath :: unit js_value) \<or> js_trim filePath = [] then
        return_io \<lparr>isValid = False, errors = [EmptyPath]\<rparr>
      else
        bind_io (pathExists E filePath) (\<lambda>ex.
        if \<not> ex then return_io \<lparr>isValid = False, errors = [NotFound]\<rparr>
        else if isSystemCriticalFile E filePath then
          return_io \<lparr>isValid = False, errors = [SystemCritical]\<rparr>
        else
          bind_io (isFileLocked E filePath) (\<lambda>locked.
          if locked then return_io \<lparr>isValid = False, errors = [Locked]\<rparr>
          else if length filePath > 260 then
            return_io \<lparr>isValid = False, errors = [PathTooLong]\<rparr>
          else return_io \<lparr>isValid = True, errors = []\<rparr>)))"

section \<open>FileShredEngine\<close>

text \<open>\<open>buffer.toString('hex')\<close>\<close>

definition hex_digit :: "nat \<Rightarrow> char" where
  "hex_digit n = ''0123456789abcdef'' ! (n mod 16)"

definition toString_hex :: "8 word list \<Rightarrow> string" where
  "toString_hex bs = concat (map (\<lambda>b. [hex_digit (unat b div 16), hex_digit (unat b mod 16)]) bs)"

definition randomBytes :: "env \<Rightarrow> string \<Rightarrow> nat \<Rightarrow> nat \<Rightarrow> 8 word list" where
  "randomBytes E key i n = map (rnd E key i) [0..<n]"

text \<open>
  The rename loop of \<open>secureDeleteFileName\<close> (lines 465-476) over the remaining values of
  \<open>i\<close>, returning the final \<open>currentPath\<close>.  A failed rename leaves the loop
  (\<open>break\<close>).  \<open>16 - i * 2\<close> is at least \<open>8\<close> for every \<open>i\<close> the loop reaches, so the
  truncating subtraction of \<open>nat\<close> agrees with the source under \<open>Math.max(8, _)\<close>.
\<close>

fun rename_shrinking :: "env \<Rightarrow> string \<Rightarrow> string \<Rightarrow> nat list \<Rightarrow> string \<Rightarrow> string io" where
  "rename_shrinking E dir ext [] currentPath = return_io currentPath"
| "rename_shrinking E dir ext (i # rest) currentPath =
     bind_io (emit [RandomData (max 8 (16 - i * 2))]) (\<lambda>u.
     let randomName = toString_hex (randomBytes E currentPath i (max 8 (16 - i * 2)));
         newPath = path_join E dir (randomName @ ext)
     in
     bind_io (catch_io (bind_io (sys E (RenameSync currentPath newPath)) (\<lambda>u. return_io True))
                (\<lambda>error. return_io False)) (\<lambda>renamed.
     if renamed then rename_shrinking E dir ext rest newPath
     else return_io currentPath))"

definition secureDeleteFileName :: "env \<Rightarrow> string \<Rightarrow> unit io" where
  "secureDeleteFileName E originalPath =
     catch_io
       (let dir = path_dirname E originalPath;
            ext = path_extname E originalPath
        in
        bind_io (rename_shrinking E dir ext [0..<5] originalPath) (\<lambda>currentPath.
        catch_io (sys E (UnlinkSync currentPath)) (\<lambda>error. return_io ())))
       (\<lambda>error. return_io ())"

text \<open>The instance method: always the DoD wipe, then the best-effort rename and delete.\<close>

definition shredSingleFile :: "env \<Rightarrow> string \<Rightarrow> callback \<Rightarrow> unit io" where
  "shredSingleFile E filePath progressCallback =
     catch_io
       (bind_io (ask E (ExistsSync filePath)) (\<lambda>ex.
        if \<not> ex then throw_io (FileNotExist filePath)
        else
          bind_io (performDoDWipe E filePath progressCallback) (\<lambda>u.
          secureDeleteFileName E filePath)))
       throw_io"

text \<open>The rename loop of the static \<open>shredFile\<close> (lines 427-432): no \<open>try\<close> around it.\<close>

fun rename_fixed :: "env \<Rightarrow> string \<Rightarrow> nat list \<Rightarrow> string \<Rightarrow> string io" where
  "rename_fixed E dir [] filePath = return_io filePath"
| "rename_fixed E dir (i # rest) filePath =
     bind_io (generateSecureRandomData 16) (\<lambda>u.
     let randomName = toString_hex (randomBytes E filePath i 16);
         newPath = path_join E dir randomName
     in
     bind_io (sys E (RenameSync filePath newPath)) (\<lambda>u.
     rename_fixed E dir rest newPath))"

text \<open>The \<open>switch (method)\<close> of the static \<open>shredFile\<close> (lines 406-421).\<close>

definition wipe_by_method :: "env \<Rightarrow> string \<Rightarrow> string \<Rightarrow> callback \<Rightarrow> unit io" where
  "wipe_by_method E filePath method progressCallback =
     (if method = ''quick'' then performQuickWipe E filePath progressCallback
      else if method = ''dod'' then performDoDWipe E filePath progressCallback
      else if method = ''gutmann'' then performGutmannWipe E filePath progressCallback
      else throw_io UnknownMethod)"

definition maxSize :: nat where
  "maxSize = 5 * 1024 * 1024 * 1024"

text \<open>
  The static \<open>FileShredder.shredFile(filePath, method, progressCallback)\<close>.  The two helpers
  for the temporary directory are single calls: \<open>createSecureTempDir\<close> returns a path or
  \<open>null\<close>, \<open>cleanupTempDir\<close> a boolean that is not read.
\<close>

definition shredFile :: "env \<Rightarrow> string \<Rightarrow> string \<Rightarrow> callback \<Rightarrow> bool io" where
  "shredFile E filePath method progressCallback =
     catch_io
       (bind_io (validateFilePath E filePath) (\<lambda>v.
        if \<not> ToBoolean (JObject v) then throw_io IllegalPath
        else
        bind_io (ask E (ExistsSync filePath)) (\<lambda>ex.
        if \<not> ex then throw_io (FileNotExist filePath)
        else
        bind_io (sys E (StatSync filePath)) (\<lambda>u.
        let fileSize = size_of E filePath in
        if fileSize > maxSize then throw_io (FileTooLarge maxSize)
        else
        bind_io (ask E CreateSecureTempDir) (\<lambda>tempDir.
        if \<not> tempDir then throw_io NoTempDir
        else
        bind_io (wipe_by_method E filePath method progressCallback) (\<lambda>u.
        let dir = path_dirname E filePath in
        bind_io (rename_fixed E dir [0..<10] filePath) (\<lambda>filePath'.
        bind_io (sys E (UnlinkSync filePath')) (\<lambda>u.
        bind_io (call_cb progressCallback 100) (\<lambda>u.
        bind_io (ask E CleanupTempDir) (\<lambda>c.
        return_io True))))))))))
       (\<lambda>error. bind_io (emit [ConsoleError error]) (\<lambda>u. return_io False))"

section \<open>DirectoryShredEngine\<close>

text \<open>
  What the file system holds below a directory: \<open>fs.readdirSync\<close> lists the names of the
  children, and \<open>fs.statSync(p).isDirectory()\<close> tells the two kinds of node apart.
\<close>

datatype node = FileNode string | DirNode string "node list"

fun node_name :: "node \<Rightarrow> string" where
  "node_name (FileNode n) = n"
| "node_name (DirNode n subItems) = n"

text \<open>
  \<open>countItems\<close> (lines 507-518) increments the variable \<open>totalItems\<close> of the enclosing
  call; here it takes the value and returns the new one.  \<open>countItemsList\<close> is the
  \<open>for (const item of ...)\<close> around each call, \<open>currentPath\<close> being the directory listed.
\<close>

fun countItems :: "env \<Rightarrow> string \<Rightarrow> node \<Rightarrow> nat \<Rightarrow> nat io"
  and countItemsList :: "env \<Rightarrow> string \<Rightarrow> node list \<Rightarrow> nat \<Rightarrow> nat io" where
  "countItems E currentPath (FileNode n) totalItems =
     bind_io (sys E (StatSync currentPath)) (\<lambda>u. return_io (totalItems + 1))"
| "countItems E currentPath (DirNode n subItems) totalItems =
     bind_io (sys E (StatSync currentPath)) (\<lambda>u.
     bind_io (sys E (ReaddirSync currentPath)) (\<lambda>u.
     countItemsList E currentPath subItems (totalItems + 1)))"
| "countItemsList E currentPath [] totalItems = return_io totalItems"
| "countItemsList E currentPath (item # rest) totalItems =
     bind_io (countItems E (path_join E currentPath (node_name item)) item totalItems) (\<lambda>totalItems'.
     countItemsList E currentPath rest totalItems')"

text \<open>The callback handed to \<open>shredSingleFile\<close> for a file of the tree (lines 544-550).\<close>

definition fileCallback :: "callback \<Rightarrow> nat \<Rightarrow> nat \<Rightarrow> callback" where
  "fileCallback progressCallback totalItems processedItems =
     Some (\<lambda>fileProgress.
       case progressCallback of
         None \<Rightarrow> []
       | Some f \<Rightarrow>
           f \<lfloor>js_mul (js_div (js_add (of_nat processedItems) (js_div (of_int fileProgress) 100))
                          (of_nat totalItems)) 100\<rfloor>)"

text \<open>
  \<open>processItems\<close> (lines 526-560), with the variable \<open>processedItems\<close> passed in and
  returned.  \<open>totalItems\<close> is not \<open>0\<close> when a node is processed: the node was counted.
\<close>

fun processItems :: "env \<Rightarrow> nat \<Rightarrow> callback \<Rightarrow> string \<Rightarrow> node \<Rightarrow> nat \<Rightarrow> nat io"
  and processItemsList :: "env \<Rightarrow> nat \<Rightarrow> callback \<Rightarrow> string \<Rightarrow> node list \<Rightarrow> nat \<Rightarrow> nat io" where
  "processItems E totalItems progressCallback currentPath (DirNode n subItems) processedItems =
     bind_io (sys E (StatSync currentPath)) (\<lambda>u.
     bind_io (sys E (ReaddirSync currentPath)) (\<lambda>u.
     bind_io (processItemsList E totalItems progressCallback currentPath subItems processedItems)
       (\<lambda>processedItems'.
     bind_io (catch_io (sys E (RmdirSync currentPath)) (\<lambda>error. return_io ())) (\<lambda>u.
     bind_io (call_cb progressCallback
                \<lfloor>js_mul (js_div (of_nat (processedItems' + 1)) (of_nat totalItems)) 100\<rfloor>) (\<lambda>u.
     return_io (processedItems' + 1))))))"
| "processItems E totalItems progressCallback currentPath (FileNode n) processedItems =
     bind_io (sys E (StatSync currentPath)) (\<lambda>u.
     bind_io (shredSingleFile E currentPath
                (fileCallback progressCallback totalItems processedItems)) (\<lambda>u.
     bind_io (call_cb progressCallback
                \<lfloor>js_mul (js_div (of_nat (processedItems + 1)) (of_nat totalItems)) 100\<rfloor>) (\<lambda>u.
     return_io (processedItems + 1))))"
| "processItemsList E totalItems progressCallback currentPath [] processedItems =
     return_io processedItems"
| "processItemsList E totalItems progressCallback currentPath (item # rest) processedItems =
     bind_io (processItems E totalItems progressCallback
                (path_join E currentPath (node_name item)) item processedItems) (\<lambda>processedItems'.
     processItemsList E totalItems progressCallback currentPath rest processedItems')"

text \<open>
  The instance method \<open>shredDirectory(dirPath, progressCallback)\<close>; \<open>items\<close> is what the
  directory holds.
\<close>

definition shredDirectory :: "env \<Rightarrow> string \<Rightarrow> node list \<Rightarrow> callback \<Rightarrow> unit io" where
  "shredDirectory E dirPath items progressCallback =
     catch_io
       (bind_io (ask E (ExistsSync dirPath)) (\<lambda>ex.
        if \<not> ex then throw_io (DirNotExist dirPath)
        else
        bind_io (sys E (ReaddirSync dirPath)) (\<lambda>u.
        bind_io (countItemsList E dirPath items 0) (\<lambda>totalItems.
        bind_io (processItemsList E totalItems progressCallback dirPath items 0) (\<lambda>processedItems.
        catch_io (sys E (RmdirSync dirPath)) (\<lambda>error. return_io ()))))))
       (\<lambda>error. throw_io (ShredDirFailed error))"

text \<open>The static \<open>FileShredder.shredDirectory\<close>.\<close>

definition shredDirectory_static :: "env \<Rightarrow> string \<Rightarrow> node list \<Rightarrow> callback \<Rightarrow> bool io" where
  "shredDirectory_static E dirPath items progressCallback =
     catch_io
       (bind_io (shredDirectory E dirPath items progressCallback) (\<lambda>u. return_io True))
       (\<lambda>error. bind_io (emit [ConsoleError error]) (\<lambda>u. return_io False))"

section \<open>Reading a trace\<close>

fun calls :: "event list \<Rightarrow> syscall list" where
  "calls [] = []"
| "calls (Call c b # t) = c # calls t"
| "calls (x # t) = calls t"


text \<open>The passes of a trace: pattern and progress window of each pass entered, in order.\<close>

fun passes :: "event list \<Rightarrow> (nat option \<times> rat \<times> rat) list" where
  "passes [] = []"
| "passes (OverwritePass p pat s e # t) = (pat, s, e) # passes t"
| "passes (x # t) = passes t"

fun progress_values :: "event list \<Rightarrow> int list" where
  "progress_values [] = []"
| "progress_values (Progress v # t) = v # progress_values t"
| "progress_values (x # t) = progress_values t"

fun writes :: "event list \<Rightarrow> syscall list" where
  "writes [] = []"
| "writes (Call (WriteSync p pat n pos) b # t) = WriteSync p pat n pos # writes t"
| "writes (x # t) = writes t"


fun renames :: "event list \<Rightarrow> (string \<times> string) list" where
  "renames [] = []"
| "renames (Call (RenameSync a b) r # t) = (a, b) # renames t"
| "renames (x # t) = renames t"

fun unlinks :: "event list \<Rightarrow> string list" where
  "unlinks [] = []"
| "unlinks (Call (UnlinkSync a) r # t) = a # unlinks t"
| "unlinks (x # t) = unlinks t"

fun pass_paths :: "event list \<Rightarrow> string list" where
  "pass_paths [] = []"
| "pass_paths (OverwritePass p pat s e # t) = p # pass_paths t"
| "pass_paths (x # t) = pass_paths t"

text \<open>Calls that only read the file system.\<close>

fun is_query :: "event \<Rightarrow> bool" where
  "is_query (Call (StatSync p) r) = True"
| "is_query (Call (ReaddirSync p) r) = True"
| "is_query (Call (ExistsSync p) r) = True"
| "is_query x = False"

text \<open>
  The leaf units of a tree in the words of the specification: each file counts as 1, each
  directory node counts as 1, itself included.
\<close>

fun leaf_units :: "node \<Rightarrow> nat" where
  "leaf_units (FileNode n) = 1"
| "leaf_units (DirNode n subItems) = 1 + sum_list (map leaf_units subItems)"

text \<open>A list of progress values that never decreases and stays between two bounds.\<close>

definition rising :: "int \<Rightarrow> int \<Rightarrow> int list \<Rightarrow> bool" where
  "rising lo hi xs = (sorted xs \<and> list_all (\<lambda>x. lo \<le> x \<and> x \<le> hi) xs)"

text \<open>
  The overall percentage after \<open>k\<close> of \<open>T\<close> nodes (lines 557-558), and the one reported
  while a file is at \<open>v\<close> percent (line 547).
\<close>

definition overall :: "nat \<Rightarrow> nat \<Rightarrow> int" where
  "overall T k = \<lfloor>js_mul (js_div (of_nat k) (of_nat T)) 100\<rfloor>"

definition overall_in_file :: "nat \<Rightarrow> nat \<Rightarrow> int \<Rightarrow> int" where
  "overall_in_file T k v =
     \<lfloor>js_mul (js_div (js_add (of_nat k) (js_div (of_int v) 100)) (of_nat T)) 100\<rfloor>"

text \<open>
  What processing \<open>units\<close> nodes from \<open>k\<close> processed ones reports: values that rise from the
  overall percentage of \<open>k\<close> to that of \<open>k + units\<close>; on success \<open>k + units\<close> nodes are
  processed and the last value reported is their overall percentage.
\<close>

definition process_spec :: "nat \<Rightarrow> nat \<Rightarrow> nat \<Rightarrow> nat io \<Rightarrow> bool" where
  "process_spec T k units m =
     (rising (overall T k) (overall T (k + units)) (progress_values (fst m))
      \<and> (\<forall>k'. snd m = Inr k' \<longrightarrow>
             k' = k + units
             \<and> (0 < units \<longrightarrow> progress_values (fst m) \<noteq> []
                    \<and> last (progress_values (fst m)) = overall T k')))"

text \<open>The passes a list of patterns asks for: pass \<open>i\<close> of \<open>N\<close> with its progress window.\<close>

definition wipe_plan :: "nat option list \<Rightarrow> (nat option \<times> rat \<times> rat) list" where
  "wipe_plan pats =
     map (\<lambda>i. (pats ! i, js_mul (js_div (of_nat i) (of_nat (length pats))) 100,
                js_mul (js_div (of_nat (i + 1)) (of_nat (length pats))) 100)) [0..<length pats]"

subsection \<open>What a run has written\<close>

text \<open>
  What a run has done to the content of files: the writes and the flushes that succeeded,
  in order.
\<close>

fun disk_op :: "event \<Rightarrow> syscall option" where
  "disk_op (Call (WriteSync p pat n pos) True) = Some (WriteSync p pat n pos)"
| "disk_op (Call (FsyncSync p) True) = Some (FsyncSync p)"
| "disk_op e = None"

definition disk_ops :: "event list \<Rightarrow> syscall list" where
  "disk_ops t = List.map_filter disk_op t"

text \<open>
  One overwrite pass over a file of \<open>fs\<close> bytes in the words of the specification (4.2):
  the buffer is capped at \<open>min(1 MiB, size)\<close>, the writes proceed sequentially from offset
  0, the final chunk is \<open>size mod bufferSize\<close>, and a flush is forced after the last chunk.
\<close>

definition pass_ops :: "string \<Rightarrow> nat \<Rightarrow> nat option \<Rightarrow> syscall list" where
  "pass_ops p fs pat =
     (let bs = min (1024 * 1024) fs in
      map (\<lambda>i. WriteSync p pat bs (i * bs)) [0..<fs div bs]
      @ (if 0 < fs mod bs then [WriteSync p pat (fs mod bs) (fs div bs * bs)] else [])
      @ [FsyncSync p])"

text \<open>
  \<open>sweep p pat pos cs\<close>: the calls \<open>cs\<close> are writes of the pattern \<open>pat\<close> to \<open>p\<close>, the first
  at offset \<open>pos\<close> and each one where the one before ended, followed by one flush of \<open>p\<close>
  and nothing else; the result is the offset reached.
\<close>

fun sweep :: "string \<Rightarrow> nat option \<Rightarrow> nat \<Rightarrow> syscall list \<Rightarrow> nat option" where
  "sweep p pat pos [] = None"
| "sweep p pat pos (c # cs) =
     (case c of
        WriteSync q a n off \<Rightarrow>
          if q = p \<and> a = pat \<and> off = pos then sweep p pat (pos + n) cs else None
      | FsyncSync q \<Rightarrow> if q = p \<and> cs = [] then Some pos else None
      | _ \<Rightarrow> None)"

text \<open>
  A computation follows a list of observations: what is observed of its trace is an
  initial segment of the list, and the whole list when the computation returns.
\<close>

definition follows :: "(event \<Rightarrow> 'a option) \<Rightarrow> 'b io \<Rightarrow> 'a list \<Rightarrow> bool" where
  "follows f m L =
     (prefix (List.map_filter f (fst m)) L \<and> (\<forall>x. snd m = Inr x \<longrightarrow> List.map_filter f (fst m) = L))"

subsection \<open>Failures and the traversal of a tree\<close>

text \<open>The calls of an overwrite pass on the file \<open>p\<close>.\<close>

fun pass_call :: "string \<Rightarrow> syscall \<Rightarrow> bool" where
  "pass_call p (StatSync q) = (q = p)"
| "pass_call p (OpenSync q) = (q = p)"
| "pass_call p (WriteSync q pat n pos) = (q = p)"
| "pass_call p (FsyncSync q) = (q = p)"
| "pass_call p (CloseSync q) = (q = p)"
| "pass_call p c = False"

text \<open>
  The calls that clean up after the overwrite: the obfuscation renames, the unlink of a
  file and the removal of a directory.
\<close>

fun cleanup_call :: "syscall \<Rightarrow> bool" where
  "cleanup_call (RenameSync a b) = True"
| "cleanup_call (UnlinkSync a) = True"
| "cleanup_call (RmdirSync a) = True"
| "cleanup_call c = False"

text \<open>The paths of the files of a tree, in the order of the traversal.\<close>

fun node_files :: "env \<Rightarrow> string \<Rightarrow> node \<Rightarrow> string list"
  and list_files :: "env \<Rightarrow> string \<Rightarrow> node list \<Rightarrow> string list" where
  "node_files E q (FileNode n) = [q]"
| "node_files E q (DirNode n subItems) = list_files E q subItems"
| "list_files E q [] = []"
| "list_files E q (item # rest) =
     node_files E (path_join E q (node_name item)) item @ list_files E q rest"

text \<open>The writes and flushes of the three passes of the DoD wipe on the file \<open>q\<close>.\<close>

definition dod_ops :: "env \<Rightarrow> string \<Rightarrow> syscall list" where
  "dod_ops E q = concat (map (pass_ops q (size_of E q)) [Some 0, Some 255, None])"

text \<open>
  A computation blames the calls of a kind: when it raises an exception, the exception is
  that of a refused call of this kind.
\<close>

definition blames :: "env \<Rightarrow> (syscall \<Rightarrow> bool) \<Rightarrow> 'a io \<Rightarrow> bool" where
  "blames E K m = (\<forall>e. snd m = Inl e \<longrightarrow> (\<exists>c. e = FsError c \<and> K c \<and> \<not> ok E c))"

subsection \<open>Renames\<close>






section \<open>Example environments\<close>

text \<open>
  A file system on which every call succeeds and every file has \<open>n\<close> bytes, with paths
  separated by \<open>/\<close>.
\<close>

definition demo_basename :: "string \<Rightarrow> string" where
  "demo_basename p = rev (takeWhile (\<lambda>c. c \<noteq> CHR ''/'') (rev p))"

definition demo_dirname :: "string \<Rightarrow> string" where
  "demo_dirname p = rev (drop 1 (dropWhile (\<lambda>c. c \<noteq> CHR ''/'') (rev p)))"

text \<open>
  \<open>path.extname\<close>: from the last dot of the base name to its end; empty when the base
  name has no dot, when its only dot is its first character, and for \<open>..\<close>.
\<close>

definition demo_extname :: "string \<Rightarrow> string" where
  "demo_extname p =
     (let b = demo_basename p; r = takeWhile (\<lambda>c. c \<noteq> CHR ''.'') (rev b)
      in if length r = length b \<or> length r + 1 = length b \<or> b = ''..'' then []
         else CHR ''.'' # rev r)"

definition env_ok :: "nat \<Rightarrow> env" where
  "env_ok n =
     \<lparr>ok = (\<lambda>c. True),
      err_code = (\<lambda>c. []),
      size_of = (\<lambda>p. n),
      rnd = (\<lambda>key i j. 0xAB),
      path_join = (\<lambda>d x. d @ ''/'' @ x),
      path_dirname = demo_dirname,
      path_extname = demo_extname,
      path_normalize = (\<lambda>p. p)\<rparr>"


text \<open>The same file system, but every rename and every unlink is refused.\<close>

definition env_no_rename :: "nat \<Rightarrow> env" where
  "env_no_rename n =
     (env_ok n)\<lparr>ok := (\<lambda>c. case c of RenameSync a b \<Rightarrow> False | UnlinkSync a \<Rightarrow> False | _ \<Rightarrow> True)\<rparr>"

text \<open>The same file system, but the file \<open>q\<close> is held by another process: opening it fails.\<close>

definition env_locked :: "nat \<Rightarrow> string \<Rightarrow> env" where
  "env_locked n q =
     (env_ok n)\<lparr>ok := (\<lambda>c. c \<noteq> OpenSync q), err_code := (\<lambda>c. ''EBUSY'')\<rparr>"

text \<open>The same file system, but the calls of the list \<open>cs\<close> are refused.\<close>

definition env_refusing :: "nat \<Rightarrow> syscall list \<Rightarrow> env" where
  "env_refusing n cs = (env_ok n)\<lparr>ok := (\<lambda>c. c \<notin> set cs)\<rparr>"

text \<open>The same file system as \<open>env_ok\<close>, but every rename, unlink and rmdir is refused.\<close>

definition env_no_cleanup :: "nat \<Rightarrow> env" where
  "env_no_cleanup n = (env_ok n)\<lparr>ok := (\<lambda>c. \<not> cleanup_call c)\<rparr>"

section \<open>Lemmas on numbers\<close>

lemma floor_rat_numeral: "\<lfloor>numeral a / numeral b :: rat\<rfloor> = numeral a div numeral b"
  using floor_divide_of_int_eq[of "numeral a" "numeral b", where ?'a = rat] by simp

lemmas js_defs = js_add_def js_sub_def js_mul_def js_div_def


lemma pow2_pos: "0 < pow2 e"
  by (simp add: pow2_def)

lemma pow2_powi: "pow2 e = 2 powi e"
  by (simp add: pow2_def power_int_def inverse_eq_divide power_one_over)

lemma pow2_Suc: "pow2 (e + 1) = 2 * pow2 e"
  unfolding pow2_powi by (simp add: power_int_add)

lemma pow2_pred: "pow2 (e - 1) = pow2 e / 2"
  using pow2_Suc[of "e - 1"] by simp

lemma pow2_mono: "a \<le> b \<Longrightarrow> pow2 a \<le> pow2 b"
  unfolding pow2_powi by (rule power_int_increasing) simp_all

lemma pow2_less: "pow2 a < pow2 b \<Longrightarrow> a < b"
  using pow2_mono[of b a] by (cases "a < b") auto

lemma expo_bounds: "0 < x \<Longrightarrow> pow2 (expo x) \<le> x \<and> x < pow2 (expo x + 1)"
proof (induction x rule: expo.induct)
  case (1 x)
  show ?case
  proof (cases "2 \<le> x")
    case True
    then have e: "expo x = expo (x / 2) + 1" by (subst expo.simps) simp
    have "pow2 (expo (x / 2)) \<le> x / 2 \<and> x / 2 < pow2 (expo (x / 2) + 1)"
      using 1(1)[OF True] True by simp
    then show ?thesis
      unfolding e using pow2_Suc[of "expo (x / 2)"] pow2_Suc[of "expo (x / 2) + 1"] by simp
  next
    case False
    show ?thesis
    proof (cases "x < 1")
      case True
      then have e: "expo x = expo (x * 2) - 1" using False 1(3) by (subst expo.simps) simp
      have "pow2 (expo (x * 2)) \<le> x * 2 \<and> x * 2 < pow2 (expo (x * 2) + 1)"
        using 1(2)[OF False] True 1(3) by simp
      then show ?thesis
        unfolding e using pow2_pred[of "expo (x * 2)"] pow2_Suc[of "expo (x * 2)"] by simp
    next
      case F2: False
      then have e: "expo x = 0" using False by (subst expo.simps) simp
      show ?thesis unfolding e using False F2 by (simp add: pow2_def)
    qed
  qed
qed

lemma expo_unique:
  assumes "pow2 a \<le> x" "x < pow2 (a + 1)"
  shows "expo x = a"
proof -
  have x: "0 < x" using assms(1) pow2_pos[of a] by linarith
  have b: "pow2 (expo x) \<le> x" "x < pow2 (expo x + 1)" using expo_bounds[OF x] by simp_all
  have "pow2 a < pow2 (expo x + 1)" using assms(1) b(2) by linarith
  then have 1: "a < expo x + 1" by (rule pow2_less)
  have "pow2 (expo x) < pow2 (a + 1)" using assms(2) b(1) by linarith
  then have 2: "expo x < a + 1" by (rule pow2_less)
  show ?thesis using 1 2 by simp
qed

lemma expo_mono:
  assumes "0 < x" "x \<le> y"
  shows "expo x \<le> expo y"
proof -
  have "pow2 (expo x) \<le> x" using expo_bounds[OF assms(1)] by simp
  also have "x \<le> y" by fact
  also have "y < pow2 (expo y + 1)" using expo_bounds[of y] assms by simp
  finally have "expo x < expo y + 1" by (rule pow2_less)
  then show ?thesis by simp
qed

lemma rne_of_int: "rne (of_int n) = n"
  by (simp add: rne_def)

lemma rne_mono: "x \<le> y \<Longrightarrow> rne x \<le> rne y"
proof -
  assume xy: "x \<le> y"
  have lo: "\<lfloor>q\<rfloor> \<le> rne q" and hi: "rne q \<le> \<lfloor>q\<rfloor> + 1" for q
    by (simp_all add: rne_def Let_def)
  have f: "\<lfloor>x\<rfloor> \<le> \<lfloor>y\<rfloor>" using xy by (rule floor_mono)
  show ?thesis
  proof (cases "\<lfloor>x\<rfloor> = \<lfloor>y\<rfloor>")
    case True
    have "x - of_int \<lfloor>y\<rfloor> \<le> y - of_int \<lfloor>y\<rfloor>" using xy by simp
    then show ?thesis
      unfolding rne_def Let_def True by auto
  next
    case False
    then have "\<lfloor>x\<rfloor> + 1 \<le> \<lfloor>y\<rfloor>" using f by simp
    then show ?thesis using lo[of y] hi[of x] by linarith
  qed
qed

text \<open>The significand of a rounded number has 53 bits, or the number is the next power of 2.\<close>

lemma significand_bounds:
  assumes "0 < x"
  shows "2 ^ 52 \<le> rne (x / pow2 (expo x - 52)) \<and> rne (x / pow2 (expo x - 52)) \<le> 2 ^ 53"
proof -
  define u where "u = pow2 (expo x - 52)"
  have u: "0 < u" by (simp add: u_def pow2_pos)
  have p52: "pow2 (expo x) = 2 ^ 52 * u"
    unfolding u_def pow2_powi by (simp add: power_int_diff)
  have p53: "pow2 (expo x + 1) = 2 ^ 53 * u"
    unfolding pow2_Suc p52 by simp
  have b: "2 ^ 52 * u \<le> x" "x < 2 ^ 53 * u"
    using expo_bounds[OF assms] unfolding p52 p53 by simp_all
  have q1: "of_int (2 ^ 52) \<le> x / u" using b(1) u by (simp add: pos_le_divide_eq)
  have q2: "x / u \<le> of_int (2 ^ 53)" using b(2) u by (simp add: pos_divide_le_eq)
  have r1: "2 ^ 52 \<le> rne (x / u)" using rne_mono[OF q1] unfolding rne_of_int .
  have r2: "rne (x / u) \<le> 2 ^ 53" using rne_mono[OF q2] unfolding rne_of_int .
  show ?thesis using r1 r2 unfolding u_def by simp
qed

lemma pow2_expo: "pow2 e = 2 ^ 52 * pow2 (e - 52)" "pow2 (e + 1) = 2 ^ 53 * pow2 (e - 52)"
proof -
  show a: "pow2 e = 2 ^ 52 * pow2 (e - 52)"
    unfolding pow2_powi by (simp add: power_int_diff)
  show "pow2 (e + 1) = 2 ^ 53 * pow2 (e - 52)"
    unfolding pow2_Suc a by simp
qed

lemma fl_pos_bounds:
  assumes "0 < x"
  shows "pow2 (expo x) \<le> fl_pos x \<and> fl_pos x \<le> pow2 (expo x + 1)"
proof -
  define u where "u = pow2 (expo x - 52)"
  have u: "0 < u" by (simp add: u_def pow2_pos)
  have r: "2 ^ 52 \<le> rne (x / u)" "rne (x / u) \<le> 2 ^ 53"
    using significand_bounds[OF assms] by (simp_all add: u_def)
  have "(of_int (2 ^ 52) :: rat) \<le> of_int (rne (x / u))" using r(1) by (simp only: of_int_le_iff)
  then have a: "2 ^ 52 * u \<le> of_int (rne (x / u)) * u" using u by simp
  have "(of_int (rne (x / u)) :: rat) \<le> of_int (2 ^ 53)" using r(2) by (simp only: of_int_le_iff)
  then have c: "of_int (rne (x / u)) * u \<le> 2 ^ 53 * u" using u by simp
  show ?thesis
    unfolding pow2_expo[of "expo x"] fl_pos_def Let_def u_def[symmetric] using a c by simp
qed

lemma fl_pos_mono:
  assumes "0 < x" "x \<le> y"
  shows "fl_pos x \<le> fl_pos y"
proof (cases "expo x = expo y")
  case True
  have u: "0 < pow2 (expo y - 52)" by (rule pow2_pos)
  then have "x / pow2 (expo y - 52) \<le> y / pow2 (expo y - 52)"
    using assms(2) by (simp add: divide_right_mono)
  then have "rne (x / pow2 (expo y - 52)) \<le> rne (y / pow2 (expo y - 52))" by (rule rne_mono)
  then have "(of_int (rne (x / pow2 (expo y - 52))) :: rat) \<le> of_int (rne (y / pow2 (expo y - 52)))"
    by (simp only: of_int_le_iff)
  then show ?thesis
    unfolding fl_pos_def Let_def True using u by simp
next
  case False
  then have "expo x + 1 \<le> expo y" using expo_mono[OF assms] by simp
  then have "pow2 (expo x + 1) \<le> pow2 (expo y)" by (rule pow2_mono)
  moreover have "fl_pos x \<le> pow2 (expo x + 1)" using fl_pos_bounds[OF assms(1)] by simp
  moreover have "pow2 (expo y) \<le> fl_pos y" using fl_pos_bounds[of y] assms by simp
  ultimately show ?thesis by linarith
qed

lemma fl_pos_pos: "0 < x \<Longrightarrow> 0 < fl_pos x"
  using fl_pos_bounds[of x] pow2_pos[of "expo x"] by linarith

lemma fl_0: "fl 0 = 0"
  by (simp add: fl_def)

text \<open>
  Rounding a numeral: these equations let the simplifier compute with doubles, innermost
  operation first.
\<close>

lemma fl_ground:
  "fl 1 = fl_pos 1"
  "fl (numeral a) = fl_pos (numeral a)"
  "fl (1 / numeral b) = fl_pos (1 / numeral b)"
  "fl (numeral a / numeral b) = fl_pos (numeral a / numeral b)"
  "fl (- x) = - fl x"
  by (simp_all add: fl_def)

lemmas fl_eval = fl_ground fl_0 fl_pos_def rne_def pow2_def expo.simps Let_def floor_rat_numeral

lemma fl_gt0: "0 < x \<Longrightarrow> 0 < fl x"
  by (simp add: fl_def fl_pos_pos)

lemma fl_ge0: "0 \<le> x \<Longrightarrow> 0 \<le> fl x"
  using fl_gt0[of x] by (cases "x = 0") (simp_all add: fl_0 less_imp_le)

text \<open>Rounding is monotone.\<close>

lemma fl_mono: "x \<le> y \<Longrightarrow> fl x \<le> fl y"
proof -
  assume xy: "x \<le> y"
  consider "0 < x" | "x = 0" | "x < 0" "0 \<le> y" | "x < 0" "y < 0" by linarith
  then show ?thesis
  proof cases
    case 1
    then show ?thesis using xy fl_pos_mono[of x y] by (simp add: fl_def)
  next
    case 2
    then show ?thesis using xy fl_ge0[of y] by (simp add: fl_0)
  next
    case 3
    have "fl x < 0" using 3(1) fl_pos_pos[of "- x"] by (simp add: fl_def)
    then show ?thesis using fl_ge0[OF 3(2)] by linarith
  next
    case 4
    have "fl_pos (- y) \<le> fl_pos (- x)" using 4 xy by (intro fl_pos_mono) simp_all
    then show ?thesis using 4 by (simp add: fl_def)
  qed
qed

text \<open>A double is rounded to itself.\<close>

lemma fl_pos_idem:
  assumes "0 < x"
  shows "fl_pos (fl_pos x) = fl_pos x"
proof -
  define e where "e = expo x"
  define u where "u = pow2 (e - 52)"
  define n where "n = rne (x / u)"
  have u: "0 < u" by (simp add: u_def pow2_pos)
  have y: "fl_pos x = of_int n * u"
    by (simp add: fl_pos_def Let_def n_def u_def e_def)
  have r: "2 ^ 52 \<le> n" "n \<le> 2 ^ 53"
    using significand_bounds[OF assms] by (simp_all add: n_def u_def e_def)
  show ?thesis
  proof (cases "n = 2 ^ 53")
    case True
    have yv: "of_int n * u = pow2 (e + 1)"
      unfolding True pow2_expo(2)[of e] u_def by simp
    have "pow2 (e + 1) < pow2 (e + 1 + 1)"
      unfolding pow2_Suc[of "e + 1"] using pow2_pos[of "e + 1"] by simp
    then have ex: "expo (pow2 (e + 1)) = e + 1"
      by (intro expo_unique) simp_all
    have q: "pow2 (e + 1) / pow2 (e + 1 - 52) = of_int (2 ^ 52)"
      using pow2_pos[of "e + 1 - 52"] unfolding pow2_expo(1)[of "e + 1"] by simp
    show ?thesis
      unfolding y yv unfolding fl_pos_def[of "pow2 (e + 1)"] Let_def ex q rne_of_int
      using pow2_expo(1)[of "e + 1"] by simp
  next
    case False
    then have lt: "n < 2 ^ 53" using r(2) by simp
    have "(of_int (2 ^ 52) :: rat) \<le> of_int n" using r(1) by (simp only: of_int_le_iff)
    then have a: "pow2 e \<le> of_int n * u"
      unfolding pow2_expo(1)[of e] u_def[symmetric] using u by simp
    have "(of_int n :: rat) < of_int (2 ^ 53)" using lt by (simp only: of_int_less_iff)
    then have b: "of_int n * u < pow2 (e + 1)"
      unfolding pow2_expo(2)[of e] u_def[symmetric] using u by simp
    have ex: "expo (of_int n * u) = e"
      using a b by (rule expo_unique)
    have q: "of_int n * u / pow2 (e - 52) = of_int n"
      using u unfolding u_def by simp
    show ?thesis
      unfolding y unfolding fl_pos_def[of "of_int n * u"] Let_def ex q rne_of_int
      by (simp add: u_def)
  qed
qed

lemma fl_idem: "fl (fl x) = fl x"
proof -
  consider "0 < x" | "x = 0" | "x < 0" by linarith
  then show ?thesis
  proof cases
    case 1
    then show ?thesis using fl_pos_idem[OF 1] fl_pos_pos[OF 1] by (simp add: fl_def)
  next
    case 2
    then show ?thesis by (simp add: fl_0)
  next
    case 3
    then have p: "0 < - x" by simp
    show ?thesis using 3 fl_pos_idem[OF p] fl_pos_pos[OF p] by (simp add: fl_def)
  qed
qed

text \<open>Integers up to \<open>2^53\<close> are doubles.\<close>

lemma fl_of_nat:
  assumes "n \<le> 2 ^ 53"
  shows "fl (of_nat n) = of_nat n"
proof (cases "n = 0")
  case True
  then show ?thesis by (simp add: fl_0)
next
  case False
  then have pos: "(0 :: rat) < of_nat n" by simp
  define e where "e = expo (of_nat n)"
  have b: "pow2 e \<le> of_nat n" "of_nat n < pow2 (e + 1)"
    using expo_bounds[OF pos] by (simp_all add: e_def)
  have n53: "(of_nat n :: rat) \<le> 2 ^ 53"
    using assms by (metis of_nat_le_iff of_nat_numeral of_nat_power)
  have e53: "e \<le> 53"
  proof (rule ccontr)
    assume "\<not> e \<le> 53"
    then have "54 \<le> e" by simp
    then have "pow2 54 \<le> pow2 e" by (rule pow2_mono)
    then have "(2 :: rat) ^ 54 \<le> of_nat n" using b(1) by (simp add: pow2_def)
    then show False using n53 by simp
  qed
  show ?thesis
  proof (cases "e \<le> 52")
    case True
    define k where "k = nat (52 - e)"
    have u: "pow2 (e - 52) = 1 / 2 ^ k"
      using True unfolding pow2_powi k_def
      by (cases "e = 52") (simp_all add: power_int_def inverse_eq_divide power_one_over)
    have q: "of_nat n / pow2 (e - 52) = (of_int (int n * 2 ^ k) :: rat)"
      unfolding u by simp
    show ?thesis
      using pos unfolding fl_def fl_pos_def Let_def e_def[symmetric] q rne_of_int
      by (simp add: u)
  next
    case F: False
    then have "e = 53" using e53 by simp
    then have "(2 :: rat) ^ 53 \<le> of_nat n" using b(1) by (simp add: pow2_def)
    then have n: "(of_nat n :: rat) = 2 ^ 53" using n53 by simp
    have q: "(of_nat n :: rat) / pow2 (e - 52) = of_int (2 ^ 52)"
      unfolding n \<open>e = 53\<close> by (simp add: pow2_def)
    show ?thesis
      using pos unfolding fl_def fl_pos_def Let_def e_def[symmetric] q rne_of_int
      unfolding \<open>e = 53\<close> n by (simp add: pow2_def)
  qed
qed

lemma fl_1: "fl 1 = 1"
  using fl_of_nat[of 1] by simp

lemma fl_100: "fl 100 = 100"
  using fl_of_nat[of 100] by simp

lemma js_div_mono: "x \<le> y \<Longrightarrow> 0 \<le> z \<Longrightarrow> js_div x z \<le> js_div y z"
  unfolding js_div_def by (intro fl_mono divide_right_mono)

lemma js_mul_mono: "x \<le> y \<Longrightarrow> 0 \<le> z \<Longrightarrow> js_mul x z \<le> js_mul y z"
  unfolding js_mul_def by (intro fl_mono mult_right_mono)

lemma js_mul_mono_left: "x \<le> y \<Longrightarrow> 0 \<le> z \<Longrightarrow> js_mul z x \<le> js_mul z y"
  unfolding js_mul_def by (intro fl_mono mult_left_mono)

lemma js_add_mono: "x \<le> y \<Longrightarrow> js_add z x \<le> js_add z y"
  unfolding js_add_def by (intro fl_mono) simp

text \<open>The progress windows of the three passes of the DoD wipe.\<close>

lemma dod_windows:
  "js_mul (js_div 0 3) 100 = 0"
  "js_mul (js_div 1 3) 100 = 2345624805922133 / 70368744177664"
  "js_mul (js_div 2 3) 100 = 2345624805922133 / 35184372088832"
  "js_mul (js_div 3 3) 100 = 100"
  by (simp_all add: js_defs fl_eval)

text \<open>
  Three values on which the rounding shows: the overall percentage after 29 of 50 nodes,
  the one of a single file at 29 percent, and the progress after the third of the eight
  buffers of the first pass of a DoD wipe (\<open>12.499999999999998\<close>).  In exact arithmetic
  they would be 58, 29 and 13.
\<close>

lemma double_examples:
  "overall 50 29 = 57"
  "overall_in_file 1 0 29 = 28"
  "Math_round (js_add 0 (js_mul (js_sub (2345624805922133 / 70368744177664) 0)
      (js_div (of_nat (3 * 1048576)) (of_nat 8388608)))) = 12"
  by (simp_all add: overall_def overall_in_file_def Math_round_def js_defs fl_eval)

section \<open>Lemmas on traces and results\<close>

subsection \<open>Results and traces of the combinators\<close>

lemma fst_bind_io: "fst (bind_io m f) = (case snd m of Inl e \<Rightarrow> fst m | Inr x \<Rightarrow> fst m @ fst (f x))"
  by (auto simp: bind_io_def split: prod.splits sum.splits)

lemma snd_bind_io: "snd (bind_io m f) = (case snd m of Inl e \<Rightarrow> Inl e | Inr x \<Rightarrow> snd (f x))"
  by (auto simp: bind_io_def split: prod.splits sum.splits)

lemma fst_catch_io: "fst (catch_io m h) = (case snd m of Inl e \<Rightarrow> fst m @ fst (h e) | Inr x \<Rightarrow> fst m)"
  by (auto simp: catch_io_def split: prod.splits sum.splits)

lemma snd_catch_io: "snd (catch_io m h) = (case snd m of Inl e \<Rightarrow> snd (h e) | Inr x \<Rightarrow> Inr x)"
  by (auto simp: catch_io_def split: prod.splits sum.splits)

lemma fst_finally_io: "fst (finally_io m fin) = fst m @ fst fin"
  by (auto simp: finally_io_def split: prod.splits sum.splits)

lemma snd_finally_io: "snd (finally_io m fin) = (case snd fin of Inl e \<Rightarrow> Inl e | Inr u \<Rightarrow> snd m)"
  by (auto simp: finally_io_def split: prod.splits sum.splits)

lemma catch_throw: "catch_io m throw_io = m"
  by (auto simp: catch_io_def throw_io_def split: prod.splits sum.splits)

subsection \<open>Events of a given kind\<close>

lemma la_return: "list_all P (fst (return_io x))"
  by (simp add: return_io_def)

lemma la_throw: "list_all P (fst (throw_io x))"
  by (simp add: throw_io_def)

lemma la_bind:
  "list_all P (fst m) \<Longrightarrow> (\<And>x. list_all P (fst (f x))) \<Longrightarrow> list_all P (fst (bind_io m f))"
  by (simp add: fst_bind_io split: sum.splits)

lemma la_catch:
  "list_all P (fst m) \<Longrightarrow> (\<And>x. list_all P (fst (h x))) \<Longrightarrow> list_all P (fst (catch_io m h))"
  by (simp add: fst_catch_io split: sum.splits)

lemma la_finally:
  "list_all P (fst m) \<Longrightarrow> list_all P (fst fin) \<Longrightarrow> list_all P (fst (finally_io m fin))"
  by (simp add: fst_finally_io)

lemma la_call_cb: "(\<And>v. P (Progress v)) \<Longrightarrow> list_all P (fst (call_cb cb v))"
  by (cases cb) (simp_all add: call_cb_def return_io_def emit_def list_all_iff)

lemma la_sys: "(\<And>c b. P (Call c b)) \<Longrightarrow> list_all P (fst (sys E c))"
  by (simp add: sys_def)

lemma la_ask: "(\<And>c b. P (Call c b)) \<Longrightarrow> list_all P (fst (ask E c))"
  by (simp add: ask_def)

lemma la_gen: "(\<And>n. P (RandomData n)) \<Longrightarrow> list_all P (fst (generateSecureRandomData n))"
  by (simp add: generateSecureRandomData_def emit_def)

lemma la_emit_rd: "(\<And>n. P (RandomData n)) \<Longrightarrow> list_all P (fst (emit [RandomData n]))"
  by (simp add: emit_def)

lemma la_forEach: "(\<And>x. list_all P (fst (body x))) \<Longrightarrow> list_all P (fst (forEach xs body))"
  by (induction xs) (simp_all add: la_return la_bind)

lemma la_write_chunk:
  assumes "\<And>c b. P (Call c b)" "\<And>n. P (RandomData n)" "\<And>v. P (Progress v)"
  shows "list_all P (fst (write_chunk E p pat cb s e fs bs i))"
  unfolding write_chunk_def
  by (auto intro!: la_bind la_sys la_call_cb la_gen la_return assms)



lemma la_remainder:
  assumes "\<And>c b. P (Call c b)" "\<And>n. P (RandomData n)"
  shows "list_all P (fst (case (fb, rb) of
                   (Some n, Some r) \<Rightarrow>
                     if r > 0 then
                       bind_io (if pat = None then generateSecureRandomData r else return_io ()) (\<lambda>u.
                       sys E (WriteSync p pat r (n * bs)))
                     else return_io ()
                 | _ \<Rightarrow> return_io ()))"
  by (cases fb; cases rb) (simp_all add: la_bind la_sys la_gen la_return assms)


lemma owp_trace:
  assumes "\<And>c b. P (Call c b)" "\<And>n. P (RandomData n)" "\<And>v. P (Progress v)"
  shows "\<exists>t. fst (overwriteFileWithPattern E p pat cb s e) = OverwritePass p pat s e # t \<and> list_all P t"
proof -
  have emit1: "snd (emit [OverwritePass p pat s e]) = Inr ()"
    "fst (emit [OverwritePass p pat s e]) = [OverwritePass p pat s e]"
    by (simp_all add: emit_def)
  show ?thesis
    unfolding overwriteFileWithPattern_def Let_def
    apply (subst fst_bind_io)
    apply (simp only: emit1 sum.case append_Cons append_Nil)
    apply (rule exI, rule conjI, rule refl)
    apply (intro la_bind la_finally la_sys la_forEach la_write_chunk la_remainder)
    apply (simp_all add: assms la_gen la_return)
    done
qed
lemma la_owp:
  assumes "\<And>c b. P (Call c b)" "\<And>n. P (RandomData n)" "\<And>v. P (Progress v)"
    "\<And>p a s e. P (OverwritePass p a s e)"
  shows "list_all P (fst (overwriteFileWithPattern E p pat cb s e))"
proof -
  obtain t where "fst (overwriteFileWithPattern E p pat cb s e) = OverwritePass p pat s e # t" "list_all P t"
    using owp_trace[of P E p pat cb s e, OF assms(1-3)] by blast
  then show ?thesis using assms(4) by simp
qed


lemma passes_nil: "list_all (\<lambda>e. passes [e] = []) t \<Longrightarrow> passes t = []"
  by (induction t rule: passes.induct) auto

lemma passes_append: "passes (t @ t') = passes t @ passes t'"
  by (induction t rule: passes.induct) auto

lemma passes_owp: "passes (fst (overwriteFileWithPattern E p pat cb s e)) = [(pat, s, e)]"
proof -
  have a: "\<And>c b. passes [Call c b] = []" "\<And>n. passes [RandomData n] = []"
    "\<And>v. passes [Progress v] = []"
    by simp_all
  obtain t where "fst (overwriteFileWithPattern E p pat cb s e) = OverwritePass p pat s e # t"
    "list_all (\<lambda>e. passes [e] = []) t"
    using owp_trace[of "\<lambda>e. passes [e] = []" E p pat cb s e, OF a] by blast
  then show ?thesis using passes_nil[of t] by simp
qed

lemma passes_bind:
  "passes (fst (bind_io m f)) =
     passes (fst m) @ (case snd m of Inl e \<Rightarrow> [] | Inr x \<Rightarrow> passes (fst (f x)))"
  by (simp add: fst_bind_io passes_append split: sum.splits)

lemma passes_catch:
  "passes (fst (catch_io m h)) =
     passes (fst m) @ (case snd m of Inl e \<Rightarrow> passes (fst (h e)) | Inr x \<Rightarrow> [])"
  by (simp add: fst_catch_io passes_append split: sum.splits)

lemma passes_forEach_ok:
  "(\<And>x. passes (fst (body x)) = [g x]) \<Longrightarrow> snd (forEach xs body) = Inr u \<Longrightarrow>
   passes (fst (forEach xs body)) = map g xs"
  by (induction xs) (auto simp: fst_bind_io snd_bind_io passes_append return_io_def split: sum.splits)

lemma passes_forEach_prefix:
  "(\<And>x. passes (fst (body x)) = [g x]) \<Longrightarrow> prefix (passes (fst (forEach xs body))) (map g xs)"
  by (induction xs) (auto simp: fst_bind_io snd_bind_io passes_append return_io_def split: sum.splits)

lemma passes_wipe_step:
  "passes (fst (wipe_step E p cb pats i)) =
     [(pats ! i, js_mul (js_div (of_nat i) (of_nat (length pats))) 100,
       js_mul (js_div (of_nat (i + 1)) (of_nat (length pats))) 100)]"
  by (simp only: wipe_step_def Let_def passes_owp)

lemma la_isFileLocked: "(\<And>c b. P (Call c b)) \<Longrightarrow> list_all P (fst (isFileLocked E p))"
  unfolding isFileLocked_def by (simp add: la_catch la_bind la_sys la_return)

lemma la_pathExists: "(\<And>c b. P (Call c b)) \<Longrightarrow> list_all P (fst (pathExists E p))"
  unfolding pathExists_def by (simp add: la_catch la_ask la_return)

lemma la_validateFilePath: "(\<And>c b. P (Call c b)) \<Longrightarrow> list_all P (fst (validateFilePath E p))"
  unfolding validateFilePath_def
  by (simp add: la_bind la_pathExists la_isFileLocked la_return)

lemma la_rename_fixed:
  "(\<And>c b. P (Call c b)) \<Longrightarrow> (\<And>n. P (RandomData n)) \<Longrightarrow> list_all P (fst (rename_fixed E dir is p))"
  by (induction "is" arbitrary: p) (simp_all add: Let_def la_bind la_gen la_sys la_return)

lemma la_rename_shrinking:
  "(\<And>c b. P (Call c b)) \<Longrightarrow> (\<And>n. P (RandomData n)) \<Longrightarrow>
   list_all P (fst (rename_shrinking E dir ext is p))"
  by (induction "is" arbitrary: p) (simp_all add: Let_def la_bind la_catch la_emit_rd la_sys la_return)

lemma la_secureDeleteFileName:
  "(\<And>c b. P (Call c b)) \<Longrightarrow> (\<And>n. P (RandomData n)) \<Longrightarrow>
   list_all P (fst (secureDeleteFileName E p))"
  unfolding secureDeleteFileName_def Let_def
  by (simp add: la_catch la_bind la_rename_shrinking la_sys la_return)




lemma snd_sys_ok: "ok E c \<Longrightarrow> snd (sys E c) = Inr ()"
  by (simp add: sys_def)

lemma snd_call_cb: "snd (call_cb cb v) = Inr ()"
  by (cases cb) (simp_all add: call_cb_def return_io_def emit_def)

lemma snd_gen: "snd (generateSecureRandomData n) = Inr ()"
  by (simp add: generateSecureRandomData_def emit_def)

lemma snd_return: "snd (return_io x) = Inr x"
  by (simp add: return_io_def)

lemma snd_forEach_ok: "(\<And>x. x \<in> set xs \<Longrightarrow> snd (body x) = Inr ()) \<Longrightarrow> snd (forEach xs body) = Inr ()"
  by (induction xs) (simp_all add: snd_bind_io snd_return)

lemma snd_write_chunk_ok:
  "\<forall>c. ok E c \<Longrightarrow> snd (write_chunk E p pat cb s e fs bs i) = Inr ()"
  by (simp add: write_chunk_def snd_bind_io snd_sys_ok snd_call_cb snd_gen snd_return)

lemma snd_owp_ok:
  assumes "\<forall>c. ok E c"
  shows "snd (overwriteFileWithPattern E p pat cb s e) = Inr ()"
  unfolding overwriteFileWithPattern_def Let_def
  using assms
  by (simp add: snd_bind_io snd_finally_io snd_sys_ok snd_gen snd_return snd_forEach_ok
      snd_write_chunk_ok emit_def split: option.splits)

lemma snd_wipe_step_ok: "\<forall>c. ok E c \<Longrightarrow> snd (wipe_step E p cb pats i) = Inr ()"
  by (simp add: wipe_step_def Let_def snd_owp_ok)

lemma snd_performGutmannWipe_ok: "\<forall>c. ok E c \<Longrightarrow> snd (performGutmannWipe E p cb) = Inr ()"
  unfolding performGutmannWipe_def catch_throw
  by (rule snd_forEach_ok) (simp add: snd_wipe_step_ok)

lemma snd_performDoDWipe_ok: "\<forall>c. ok E c \<Longrightarrow> snd (performDoDWipe E p cb) = Inr ()"
  unfolding performDoDWipe_def performDoDWipeInternal_def catch_throw Let_def
  by (rule snd_forEach_ok) (simp add: snd_wipe_step_ok)

lemma snd_performQuickWipe_ok: "\<forall>c. ok E c \<Longrightarrow> snd (performQuickWipe E p cb) = Inr ()"
  unfolding performQuickWipe_def catch_throw
  by (simp add: snd_owp_ok)

lemma snd_validateFilePath: "\<exists>v. snd (validateFilePath E p) = Inr v"
  unfolding validateFilePath_def isFileLocked_def pathExists_def
  by (simp add: snd_bind_io snd_catch_io snd_return ask_def sys_def split: sum.splits)

lemma snd_rename_fixed_ok: "\<forall>c. ok E c \<Longrightarrow> \<exists>q. snd (rename_fixed E dir is p) = Inr q"
  by (induction "is" arbitrary: p) (simp_all add: Let_def snd_bind_io snd_gen snd_sys_ok snd_return)

lemma snd_shredFile_ok:
  assumes "\<forall>c. ok E c" "size_of E p \<le> maxSize" "m = ''quick'' \<or> m = ''dod'' \<or> m = ''gutmann''"
  shows "snd (shredFile E p m cb) = Inr True"
proof -
  obtain v where v: "snd (validateFilePath E p) = Inr v" using snd_validateFilePath by blast
  have w: "snd (wipe_by_method E p m cb) = Inr ()"
    using assms(1,3) by (auto simp: wipe_by_method_def snd_performGutmannWipe_ok snd_performDoDWipe_ok snd_performQuickWipe_ok)
  obtain q where q: "snd (rename_fixed E (path_dirname E p) [0..<10] p) = Inr q"
    using snd_rename_fixed_ok[OF assms(1)] by blast
  show ?thesis
    unfolding shredFile_def Let_def
    using assms(1,2)
    by (simp add: snd_catch_io snd_bind_io v w q snd_sys_ok snd_call_cb snd_return ask_def)
qed

lemma snd_if: "snd (if b then x else y) = (if b then snd x else snd y)"
  by simp

lemma passes_if: "passes (fst (if b then x else y)) = (if b then passes (fst x) else passes (fst y))"
  by simp

lemma passes_la: "(\<And>P. (\<And>c b. P (Call c b)) \<Longrightarrow> (\<And>n. P (RandomData n)) \<Longrightarrow> (\<And>v. P (Progress v)) \<Longrightarrow> list_all P t) \<Longrightarrow> passes t = []"
  by (rule passes_nil) simp

lemma quiet_validateFilePath: "passes (fst (validateFilePath E p)) = []"
  by (rule passes_nil, rule la_validateFilePath) simp

lemma quiet_rename_fixed: "passes (fst (rename_fixed E dir is p)) = []"
  by (rule passes_nil, rule la_rename_fixed) simp_all

lemma quiet_secureDeleteFileName: "passes (fst (secureDeleteFileName E p)) = []"
  by (rule passes_nil, rule la_secureDeleteFileName) simp_all

lemma quiet_sys: "passes (fst (sys E c)) = []"
  by (simp add: sys_def)

lemma quiet_ask: "passes (fst (ask E c)) = []"
  by (simp add: ask_def)

lemma quiet_call_cb: "passes (fst (call_cb cb v)) = []"
  by (rule passes_nil, rule la_call_cb) simp

lemma quiet_return: "passes (fst (return_io x)) = []"
  by (simp add: return_io_def)

lemma quiet_throw: "passes (fst (throw_io x)) = []"
  by (simp add: throw_io_def)

lemma shredFile_passes:
  "passes (fst (shredFile E p m cb)) = [] \<or>
   passes (fst (shredFile E p m cb)) = passes (fst (wipe_by_method E p m cb))"
  unfolding shredFile_def Let_def
  apply (simp only: passes_catch passes_bind passes_if quiet_validateFilePath quiet_ask quiet_sys
      quiet_call_cb quiet_rename_fixed quiet_throw quiet_return append_Nil append_Nil2 ToBoolean.simps simp_thms if_False)
  apply (simp add: emit_def return_io_def split: sum.splits)
  done

lemma shredFile_success:
  assumes "snd (shredFile E p m cb) = Inr True"
  shows "passes (fst (shredFile E p m cb)) = passes (fst (wipe_by_method E p m cb)) \<and>
         snd (wipe_by_method E p m cb) = Inr ()"
  using assms
  unfolding shredFile_def Let_def
  apply (simp only: passes_catch passes_bind passes_if quiet_validateFilePath quiet_ask quiet_sys
      quiet_call_cb quiet_rename_fixed quiet_throw quiet_return append_Nil append_Nil2 ToBoolean.simps simp_thms if_False
      snd_catch_io snd_bind_io snd_if)
  apply (simp add: emit_def return_io_def throw_io_def split: sum.splits if_splits)
  done

lemma shredSingleFile_passes:
  "passes (fst (shredSingleFile E p cb)) = [] \<or>
   passes (fst (shredSingleFile E p cb)) = passes (fst (performDoDWipe E p cb))"
  unfolding shredSingleFile_def catch_throw
  apply (simp only: passes_bind passes_if quiet_ask quiet_secureDeleteFileName quiet_throw append_Nil append_Nil2)
  apply (simp split: sum.splits)
  done

lemma shredSingleFile_success:
  assumes "snd (shredSingleFile E p cb) = Inr ()"
  shows "passes (fst (shredSingleFile E p cb)) = passes (fst (performDoDWipe E p cb)) \<and>
         snd (performDoDWipe E p cb) = Inr ()"
  using assms
  unfolding shredSingleFile_def catch_throw
  apply (simp only: passes_bind passes_if quiet_ask quiet_secureDeleteFileName quiet_throw append_Nil append_Nil2
      snd_bind_io snd_if)
  apply (simp add: throw_io_def ask_def split: sum.splits if_splits)
  done

lemma wipe_loop_prefix:
  "prefix (passes (fst (forEach [0..<length pats] (wipe_step E p cb pats)))) (wipe_plan pats)"
  unfolding wipe_plan_def
  by (rule passes_forEach_prefix) (rule passes_wipe_step)

lemma wipe_loop_ok:
  "snd (forEach [0..<length pats] (wipe_step E p cb pats)) = Inr u \<Longrightarrow>
   passes (fst (forEach [0..<length pats] (wipe_step E p cb pats))) = wipe_plan pats"
  unfolding wipe_plan_def
  by (rule passes_forEach_ok) (rule passes_wipe_step)

lemma map_fst_wipe_plan: "map fst (wipe_plan pats) = pats"
  by (simp add: wipe_plan_def comp_def map_nth)

lemma gutmann_values:
  "map patternValue gutmannPatterns =
     [None, None, None, None,
      Some 0x55, Some 0xAA, Some 0x92, Some 0x49, Some 0x24, Some 0x92, Some 0x49, Some 0x24,
      Some 0x55, Some 0xAA, Some 0x92, Some 0x49, Some 0x24, Some 0x92, Some 0x49, Some 0x24,
      Some 0x55, Some 0xAA, Some 0x92, Some 0x49, Some 0x24, Some 0x92, Some 0x49, Some 0x24,
      Some 0x55, Some 0xAA, Some 0x92,
      None, None, None, None]"
  by (simp add: gutmannPatterns_def patternValue_def)

lemma gutmann_prefix:
  "prefix (map fst (passes (fst (performGutmannWipe E p cb)))) (map patternValue gutmannPatterns)"
proof -
  have "prefix (map fst (passes (fst (forEach [0..<length (map patternValue gutmannPatterns)]
            (wipe_step E p cb (map patternValue gutmannPatterns))))))
          (map fst (wipe_plan (map patternValue gutmannPatterns)))"
    by (rule map_mono_prefix) (rule wipe_loop_prefix)
  then show ?thesis
    unfolding performGutmannWipe_def catch_throw map_fst_wipe_plan by simp
qed

lemma gutmann_ok:
  assumes "snd (performGutmannWipe E p cb) = Inr ()"
  shows "map fst (passes (fst (performGutmannWipe E p cb))) = map patternValue gutmannPatterns"
proof -
  have "snd (forEach [0..<length (map patternValue gutmannPatterns)]
          (wipe_step E p cb (map patternValue gutmannPatterns))) = Inr ()"
    using assms unfolding performGutmannWipe_def catch_throw by simp
  then have "passes (fst (forEach [0..<length (map patternValue gutmannPatterns)]
          (wipe_step E p cb (map patternValue gutmannPatterns)))) =
        wipe_plan (map patternValue gutmannPatterns)"
    by (rule wipe_loop_ok)
  then show ?thesis
    unfolding performGutmannWipe_def catch_throw by (simp add: map_fst_wipe_plan)
qed

lemma env_ok_all: "\<forall>c. ok (env_ok n) c"
  by (simp add: env_ok_def)

lemma dod_plan:
  "wipe_plan [Some 0, Some 255, None] =
     [(Some 0, 0, 2345624805922133 / 70368744177664), (Some 255, 2345624805922133 / 70368744177664,
            2345624805922133 / 35184372088832), (None, 2345624805922133 / 35184372088832, 100)]"
  by (simp add: wipe_plan_def upt_rec dod_windows)

lemma dod_internal_unfold:
  "performDoDWipeInternal E p cb =
     forEach [0..<length [Some 0, Some 255, None :: nat option]] (wipe_step E p cb [Some 0, Some 255, None])"
  by (simp add: performDoDWipeInternal_def Let_def)

lemma snd_secureDeleteFileName: "snd (secureDeleteFileName E p) = Inr ()"
  unfolding secureDeleteFileName_def Let_def
  by (simp add: snd_catch_io snd_bind_io snd_return split: sum.splits)

lemma snd_shredSingleFile_ok:
  assumes "\<forall>c. ok E c"
  shows "snd (shredSingleFile E p cb) = Inr ()"
  unfolding shredSingleFile_def catch_throw
  using assms by (simp add: snd_bind_io ask_def snd_performDoDWipe_ok snd_secureDeleteFileName)

section \<open>C10: a pass over an empty file\<close>

text \<open>
  Claim C10.  On a file of size 0 whose \<open>stat\<close>, \<open>open\<close>, \<open>fsync\<close> and \<open>close\<close> succeed, one
  pass writes nothing and reports no progress, flushes once and returns: the buffer size is
  \<open>min(1 MiB, 0) = 0\<close>, the loop over the full buffers has no iteration and there is no
  remainder write.
\<close>

theorem empty_file_pass:
  assumes "size_of E filePath = 0"
    and "ok E (StatSync filePath)" and "ok E (OpenSync filePath)"
    and "ok E (FsyncSync filePath)" and "ok E (CloseSync filePath)"
  shows "overwriteFileWithPattern E filePath pattern cb startProgress endProgress =
           ([OverwritePass filePath pattern startProgress endProgress,
             Call (StatSync filePath) True, Call (OpenSync filePath) True]
            @ (if pattern = None then [RandomData 0] else [])
            @ [Call (FsyncSync filePath) True, Call (CloseSync filePath) True],
            Inr ())
         \<and> writes (fst (overwriteFileWithPattern E filePath pattern cb startProgress endProgress)) = []
         \<and> progress_values (fst (overwriteFileWithPattern E filePath pattern cb startProgress endProgress)) = []"
proof -
  have eq: "overwriteFileWithPattern E filePath pattern cb startProgress endProgress =
           ([OverwritePass filePath pattern startProgress endProgress,
             Call (StatSync filePath) True, Call (OpenSync filePath) True]
            @ (if pattern = None then [RandomData 0] else [])
            @ [Call (FsyncSync filePath) True, Call (CloseSync filePath) True],
            Inr ())"
    using assms
    by (simp add: overwriteFileWithPattern_def bind_io_def finally_io_def emit_def sys_def
        return_io_def generateSecureRandomData_def)
  show ?thesis
    unfolding eq by simp
qed

theorem empty_file_pass_witness:
  "size_of (env_ok 0) ''/tmp/t/empty'' = 0
   \<and> ok (env_ok 0) (StatSync ''/tmp/t/empty'') \<and> ok (env_ok 0) (OpenSync ''/tmp/t/empty'')
   \<and> ok (env_ok 0) (FsyncSync ''/tmp/t/empty'') \<and> ok (env_ok 0) (CloseSync ''/tmp/t/empty'')
   \<and> overwriteFileWithPattern (env_ok 0) ''/tmp/t/empty'' (Some 0) (Some report) 0
        (2345624805922133 / 70368744177664) =
        ([OverwritePass ''/tmp/t/empty'' (Some 0) 0 (2345624805922133 / 70368744177664),
          Call (StatSync ''/tmp/t/empty'') True, Call (OpenSync ''/tmp/t/empty'') True,
          Call (FsyncSync ''/tmp/t/empty'') True, Call (CloseSync ''/tmp/t/empty'') True],
         Inr ())
   \<and> writes (fst (overwriteFileWithPattern (env_ok 0) ''/tmp/t/empty'' (Some 0) (Some report) 0
        (2345624805922133 / 70368744177664))) = []
   \<and> progress_values (fst (overwriteFileWithPattern (env_ok 0) ''/tmp/t/empty'' (Some 0) (Some report) 0
        (2345624805922133 / 70368744177664))) = []"
  using empty_file_pass[of "env_ok 0" "''/tmp/t/empty''" "Some 0" "Some report" 0
      "2345624805922133 / 70368744177664"]
  by (simp add: env_ok_def)

lemmas io_defs = bind_io_def catch_io_def finally_io_def return_io_def throw_io_def emit_def sys_def ask_def
  call_cb_def generateSecureRandomData_def report_def

lemmas engine_defs = overwriteFileWithPattern_def write_chunk_def wipe_step_def performQuickWipe_def
  performDoDWipeInternal_def performDoDWipe_def performGutmannWipe_def Math_round_def js_defs fl_eval

lemmas file_defs = secureDeleteFileName_def shredSingleFile_def toString_hex_def randomBytes_def hex_digit_def
  shredFile_def wipe_by_method_def validateFilePath_def pathExists_def isFileLocked_def
  isSystemCriticalFile_def systemPaths_def systemExtensions_def toLowerCase_def lower_char_def js_trim_def
  is_space_def backslash_def maxSize_def

lemmas env_defs = env_ok_def env_no_rename_def env_locked_def env_refusing_def demo_dirname_def demo_extname_def demo_basename_def

lemmas dir_defs = shredDirectory_def fileCallback_def

section \<open>C5: passes executed and the progress of the last pass\<close>

text \<open>
  Claim C5.  The number of passes is the length of the pattern list, and the last pass is
  said to bring the reported progress to exactly 100.  The loop over the full buffers
  reports progress after each buffer, but the write of the remaining bytes (lines 348-358)
  reports nothing, and an empty file has no buffer at all.  On a file of 1.5 MiB the three
  passes of \<open>shredSingleFile\<close> report 22, 56 and 89, a quick wipe reports 67, and on an
  empty file nothing is reported, although every pass completes.
\<close>

theorem last_pass_below_100:
  "snd (shredSingleFile (env_ok 1572864) ''/tmp/t/a.bin'' (Some report)) = Inr ()
   \<and> length (passes (fst (shredSingleFile (env_ok 1572864) ''/tmp/t/a.bin'' (Some report)))) = 3
   \<and> progress_values (fst (shredSingleFile (env_ok 1572864) ''/tmp/t/a.bin'' (Some report))) = [22, 56, 89]
   \<and> progress_values (fst (performQuickWipe (env_ok 1572864) ''/tmp/t/a.bin'' (Some report))) = [67]
   \<and> snd (shredSingleFile (env_ok 0) ''/tmp/t/empty'' (Some report)) = Inr ()
   \<and> progress_values (fst (shredSingleFile (env_ok 0) ''/tmp/t/empty'' (Some report))) = []"
  by (simp add: io_defs engine_defs file_defs env_defs upt_rec Let_def floor_rat_numeral)

section \<open>C3: rename and unlink failures after a completed overwrite\<close>

text \<open>
  Claim C3.  Failures of the obfuscation renames and of the final unlink are to be
  suppressed once the passes are complete.  \<open>secureDeleteFileName\<close> does so: it leaves the
  loop at the first failed rename, still tries to unlink the current path and ignores the
  outcome.  The static \<open>shredFile\<close> has no \<open>try\<close> around its renames: with the pass
  complete and the first rename refused, it returns \<open>false\<close> without attempting the unlink.
\<close>

theorem static_rename_failure_reported:
  "snd (shredFile (env_no_rename 10) ''/tmp/t/a.txt'' ''quick'' None) = Inr False
   \<and> passes (fst (shredFile (env_no_rename 10) ''/tmp/t/a.txt'' ''quick'' None)) = [(None, 0, 100)]
   \<and> length (renames (fst (shredFile (env_no_rename 10) ''/tmp/t/a.txt'' ''quick'' None))) = 1
   \<and> unlinks (fst (shredFile (env_no_rename 10) ''/tmp/t/a.txt'' ''quick'' None)) = []
   \<and> snd (shredSingleFile (env_no_rename 10) ''/tmp/t/a.txt'' None) = Inr ()
   \<and> unlinks (fst (shredSingleFile (env_no_rename 10) ''/tmp/t/a.txt'' None)) = [''/tmp/t/a.txt'']"
  by (simp add: io_defs engine_defs file_defs env_defs upt_rec Let_def floor_rat_numeral)

section \<open>C8: the rename schemes\<close>


section \<open>C4: the progress denominator\<close>

text \<open>
  Claim C4 counts the root directory itself.  The count starts from the children of the
  root: a directory holding one file gives 1, where the leaf units of the tree with its
  root are 2.
\<close>

theorem root_not_counted:
  "snd (countItemsList (env_ok 10) ''/r'' [FileNode ''a''] 0) = Inr 1
   \<and> leaf_units (DirNode ''r'' [FileNode ''a'']) = 2"
  by (simp add: io_defs env_defs)

section \<open>C2: a failing child\<close>

text \<open>
  Claim C2 asks that a failing child be recorded and the traversal go on.  With the first
  of two files locked, the directory shred fails with the wrapped error of that file, and
  the second file is never overwritten nor unlinked.
\<close>

theorem locked_child_aborts:
  "snd (shredDirectory (env_locked 10 ''/r/a'') ''/r'' [FileNode ''a'', FileNode ''b''] None)
     = Inl (ShredDirFailed (FsError (OpenSync ''/r/a'')))
   \<and> pass_paths (fst (shredDirectory (env_locked 10 ''/r/a'') ''/r'' [FileNode ''a'', FileNode ''b''] None))
     = [''/r/a'']
   \<and> unlinks (fst (shredDirectory (env_locked 10 ''/r/a'') ''/r'' [FileNode ''a'', FileNode ''b''] None)) = []"
  by (simp add: io_defs engine_defs file_defs env_defs dir_defs upt_rec Let_def floor_rat_numeral)

section \<open>C6: overall progress of a directory shred\<close>

text \<open>
  Claim C6 asks that 100 be reported once, after the root is processed.  For a directory
  with one file of 10 bytes, 100 is reported twice (by the last pass of the file and after
  the file is counted as processed), both before the root directory is removed.
\<close>

theorem hundred_reported_twice:
  "progress_values (fst (shredDirectory (env_ok 10) ''/r'' [FileNode ''a''] (Some report))) = [33, 67, 100, 100]
   \<and> last (fst (shredDirectory (env_ok 10) ''/r'' [FileNode ''a''] (Some report))) = Call (RmdirSync ''/r'') True"
  by (simp add: io_defs engine_defs file_defs env_defs dir_defs upt_rec Let_def floor_rat_numeral)

subsection \<open>Exceptions that a computation cannot raise\<close>

lemma nr_bind:
  "snd m \<noteq> Inl X \<Longrightarrow> (\<And>x. snd (f x) \<noteq> Inl X) \<Longrightarrow> snd (bind_io m f) \<noteq> Inl X"
  by (auto simp: snd_bind_io split: sum.splits)

lemma nr_finally:
  "snd m \<noteq> Inl X \<Longrightarrow> snd fin \<noteq> Inl X \<Longrightarrow> snd (finally_io m fin) \<noteq> Inl X"
  by (auto simp: snd_finally_io split: sum.splits)

lemma nr_sys: "(\<And>c. X \<noteq> FsError c) \<Longrightarrow> snd (sys E c) \<noteq> Inl X"
  by (auto simp: sys_def)

lemma nr_return: "snd (return_io x) \<noteq> Inl X"
  by (simp add: return_io_def)

lemma nr_forEach: "(\<And>x. snd (body x) \<noteq> Inl X) \<Longrightarrow> snd (forEach xs body) \<noteq> Inl X"
  by (induction xs) (simp_all add: nr_return nr_bind)

lemma nr_write_chunk:
  "(\<And>c. X \<noteq> FsError c) \<Longrightarrow> snd (write_chunk E p pat cb s e fs bs i) \<noteq> Inl X"
  unfolding write_chunk_def
  by (simp add: nr_bind nr_sys snd_gen snd_call_cb snd_return)

lemma nr_owp:
  assumes "\<And>c. X \<noteq> FsError c"
  shows "snd (overwriteFileWithPattern E p pat cb s e) \<noteq> Inl X"
  unfolding overwriteFileWithPattern_def Let_def
  apply (intro nr_bind nr_finally nr_forEach nr_write_chunk nr_sys)
  apply (simp_all add: assms emit_def snd_gen snd_return nr_bind nr_sys split: option.splits)
  done

lemma nr_wipe_step:
  "(\<And>c. X \<noteq> FsError c) \<Longrightarrow> snd (wipe_step E p cb pats i) \<noteq> Inl X"
  by (simp add: wipe_step_def Let_def nr_owp)

lemma nr_wipe_by_method:
  assumes "\<And>c. X \<noteq> FsError c" "X \<noteq> UnknownMethod"
  shows "snd (wipe_by_method E p m cb) \<noteq> Inl X"
proof -
  have a: "snd (overwriteFileWithPattern E p None cb 0 100) \<noteq> Inl X"
    by (rule nr_owp) (rule assms)
  have b: "\<And>pats. snd (forEach [0..<length pats] (wipe_step E p cb pats)) \<noteq> Inl X"
    by (rule nr_forEach, rule nr_wipe_step) (rule assms)
  show ?thesis
    unfolding wipe_by_method_def performQuickWipe_def performDoDWipe_def performDoDWipeInternal_def
      performGutmannWipe_def catch_throw Let_def
    using a b[of "[Some 0, Some 255, None]"] b[of "map patternValue gutmannPatterns"] assms(2)
    by (simp add: throw_io_def)
qed

lemma nr_rename_fixed:
  "(\<And>c. X \<noteq> FsError c) \<Longrightarrow> snd (rename_fixed E dir is p) \<noteq> Inl X"
  by (induction "is" arbitrary: p) (simp_all add: Let_def nr_bind nr_sys snd_gen nr_return)

lemma la_wipe_step:
  assumes "\<And>c b. P (Call c b)" "\<And>n. P (RandomData n)" "\<And>v. P (Progress v)"
    "\<And>p a s e. P (OverwritePass p a s e)"
  shows "list_all P (fst (wipe_step E p cb pats i))"
  unfolding wipe_step_def Let_def by (rule la_owp) (rule assms)+

lemma la_wipe_by_method:
  assumes "\<And>c b. P (Call c b)" "\<And>n. P (RandomData n)" "\<And>v. P (Progress v)"
    "\<And>p a s e. P (OverwritePass p a s e)"
  shows "list_all P (fst (wipe_by_method E p m cb))"
proof -
  have a: "list_all P (fst (overwriteFileWithPattern E p None cb 0 100))"
    by (rule la_owp) (rule assms)+
  have b: "\<And>pats. list_all P (fst (forEach [0..<length pats] (wipe_step E p cb pats)))"
    by (rule la_forEach, rule la_wipe_step) (rule assms)+
  show ?thesis
    unfolding wipe_by_method_def performQuickWipe_def performDoDWipe_def performDoDWipeInternal_def
      performGutmannWipe_def catch_throw Let_def
    using a b[of "[Some 0, Some 255, None]"] b[of "map patternValue gutmannPatterns"]
    by (simp add: la_throw)
qed

lemma nr_validateFilePath: "snd (validateFilePath E p) \<noteq> Inl X"
  using snd_validateFilePath[of E p] by auto

lemma la_catch_nr:
  "list_all P (fst m) \<Longrightarrow> snd m \<noteq> Inl X \<Longrightarrow> (\<And>e. e \<noteq> X \<Longrightarrow> list_all P (fst (h e))) \<Longrightarrow>
   list_all P (fst (catch_io m h))"
  by (auto simp: fst_catch_io split: sum.splits)

lemma shredFile_trace_no_illegal_path:
  "list_all (\<lambda>e. e \<noteq> ConsoleError IllegalPath) (fst (shredFile E p m cb))"
  unfolding shredFile_def Let_def
  apply (rule la_catch_nr[where X = IllegalPath])
    apply (simp add: la_bind la_validateFilePath la_ask la_sys la_call_cb la_rename_fixed
      la_wipe_by_method la_throw la_return)
   apply (rule nr_bind, rule nr_validateFilePath)
   apply (simp add: throw_io_def nr_bind nr_sys nr_wipe_by_method nr_rename_fixed snd_call_cb
      nr_return ask_def)
  apply (simp add: fst_bind_io emit_def return_io_def)
  done

section \<open>C9: the path guard of the static shredFile\<close>

text \<open>
  Claim C9.  \<open>Utils.validateFilePath\<close> returns its result object on every path, and an
  object is truthy, so the guard \<open>if (!Utils.validateFilePath(filePath))\<close> of the static
  \<open>shredFile\<close> is never taken: no run logs the error of that branch.  A path that the
  validation rejects (here for its length of 300 characters) is shredded all the same.
\<close>

theorem path_guard_never_triggers:
  "(\<exists>v. snd (validateFilePath E filePath) = Inr v \<and> ToBoolean (JObject v))
   \<and> ConsoleError IllegalPath \<notin> set (fst (shredFile E filePath m cb))
   \<and> isValid (projr (snd (validateFilePath (env_ok 10) (replicate 300 CHR ''a'')))) = False
   \<and> snd (shredFile (env_ok 10) (replicate 300 CHR ''a'') ''quick'' None) = Inr True"
proof -
  have 1: "\<exists>v. snd (validateFilePath E filePath) = Inr v \<and> ToBoolean (JObject v)"
    using snd_validateFilePath[of E filePath] by auto
  have 2: "ConsoleError IllegalPath \<notin> set (fst (shredFile E filePath m cb))"
    using shredFile_trace_no_illegal_path[of E filePath m cb] by (auto simp: list_all_iff)
  have 3: "isValid (projr (snd (validateFilePath (env_ok 10) (replicate 300 CHR ''a'')))) = False"
    by (simp add: io_defs file_defs env_defs)
  have 4: "snd (shredFile (env_ok 10) (replicate 300 CHR ''a'') ''quick'' None) = Inr True"
    by (rule snd_shredFile_ok) (simp_all add: env_ok_def maxSize_def)
  show ?thesis using 1 2 3 4 by blast
qed

theorem path_guard_never_triggers_witness:
  "snd (validateFilePath (env_ok 10) ''/tmp/t/a.txt'') = Inr \<lparr>isValid = True, errors = []\<rparr>
   \<and> ToBoolean (JObject \<lparr>isValid = True, errors = []\<rparr>)
   \<and> ConsoleError IllegalPath \<notin> set (fst (shredFile (env_ok 10) ''/tmp/t/a.txt'' ''quick'' None))
   \<and> isValid (projr (snd (validateFilePath (env_ok 10) (replicate 300 CHR ''a'')))) = False
   \<and> snd (shredFile (env_ok 10) (replicate 300 CHR ''a'') ''quick'' None) = Inr True"
proof -
  have v: "snd (validateFilePath (env_ok 10) ''/tmp/t/a.txt'') = Inr \<lparr>isValid = True, errors = []\<rparr>"
    by (simp add: io_defs file_defs env_defs)
  note t = path_guard_never_triggers[of "env_ok 10" "''/tmp/t/a.txt''" "''quick''" None]
  show ?thesis
    using v t by simp
qed





lemma count_result:
  "(snd (countItems E p node t) = Inr n \<longrightarrow> n = t + leaf_units node)"
  "(snd (countItemsList E p items t) = Inr n \<longrightarrow> n = t + sum_list (map leaf_units items))"
proof (induction E p node t and E p items t arbitrary: n and n rule: countItems_countItemsList.induct)
  case (1 E currentPath nm totalItems)
  then show ?case by (auto simp: snd_bind_io return_io_def split: sum.splits)
next
  case (2 E currentPath nm subItems totalItems)
  then show ?case by (auto simp: snd_bind_io return_io_def split: sum.splits)
next
  case (3 E currentPath totalItems)
  then show ?case by (simp add: return_io_def)
next
  case (4 E currentPath item rest totalItems)
  show ?case
  proof
    assume a: "snd (countItemsList E currentPath (item # rest) totalItems) = Inr n"
    then obtain m where m: "snd (countItems E (path_join E currentPath (node_name item)) item totalItems) = Inr m"
      and r: "snd (countItemsList E currentPath rest m) = Inr n"
      by (auto simp: snd_bind_io split: sum.splits)
    from "4.IH"(1)[of m] m have "m = totalItems + leaf_units item" by simp
    moreover from "4.IH"(2)[of m n] r have "n = m + sum_list (map leaf_units rest)" by simp
    ultimately show "n = totalItems + sum_list (map leaf_units (item # rest))" by simp
  qed
qed

lemma count_queries:
  "list_all is_query (fst (countItems E p node t))"
  "list_all is_query (fst (countItemsList E p items t))"
proof (induction E p node t and E p items t rule: countItems_countItemsList.induct)
  case (1 E currentPath nm totalItems)
  then show ?case by (simp add: fst_bind_io sys_def return_io_def)
next
  case (2 E currentPath nm subItems totalItems)
  then show ?case by (simp add: fst_bind_io snd_bind_io sys_def return_io_def)
next
  case (3 E currentPath totalItems)
  then show ?case by (simp add: return_io_def)
next
  case (4 E currentPath item rest totalItems)
  then show ?case by (simp add: fst_bind_io split: sum.splits)
qed

lemma count_total:
  assumes "\<forall>q. ok E (StatSync q) \<and> ok E (ReaddirSync q)"
  shows "snd (countItems E p node t) = Inr (t + leaf_units node)"
    "snd (countItemsList E p items t) = Inr (t + sum_list (map leaf_units items))"
  using assms
proof (induction E p node t and E p items t rule: countItems_countItemsList.induct)
  case (1 E currentPath nm totalItems)
  then show ?case by (simp add: snd_bind_io sys_def return_io_def)
next
  case (2 E currentPath nm subItems totalItems)
  then show ?case by (simp add: snd_bind_io sys_def return_io_def)
next
  case (3 E currentPath totalItems)
  then show ?case by (simp add: return_io_def)
next
  case (4 E currentPath item rest totalItems)
  then show ?case by (simp add: snd_bind_io add.assoc)
qed

lemma shredDirectory_trace:
  assumes "ok E (ExistsSync d)" "ok E (ReaddirSync d)" "snd (countItemsList E d items 0) = Inr n"
  shows "fst (shredDirectory E d items cb) =
           Call (ExistsSync d) True # Call (ReaddirSync d) True # fst (countItemsList E d items 0)
           @ fst (bind_io (processItemsList E n cb d items 0)
                    (\<lambda>k. catch_io (sys E (RmdirSync d)) (\<lambda>error. return_io ())))"
  unfolding shredDirectory_def
  using assms
  by (simp add: fst_catch_io fst_bind_io snd_bind_io ask_def sys_def throw_io_def split: sum.splits)

lemma shredDirectory_count_fails:
  assumes "snd (countItemsList E d items 0) = Inl e"
  shows "list_all is_query (fst (shredDirectory E d items cb))"
  unfolding shredDirectory_def
  using assms count_queries(2)[of E d items 0]
  by (simp add: fst_catch_io fst_bind_io snd_bind_io ask_def sys_def throw_io_def split: sum.splits)

text \<open>
  Claim C4, as the code has it.  The count runs over the children of the root: each file
  counts 1 and each directory below the root counts 1 plus its content, so the total is
  one less than the leaf units of the tree with its root.  Counting only reads the file
  system (\<open>stat\<close> and \<open>readdir\<close>); it is complete before the first node is processed,
  every progress value of the operation is computed with this total, and when counting
  fails nothing has been changed.
\<close>

theorem count_before_processing:
  "(snd (countItemsList E d items 0) = Inr n \<longrightarrow>
      n = sum_list (map leaf_units items) \<and> Suc n = leaf_units (DirNode r items))
   \<and> list_all is_query (fst (countItemsList E d items 0))
   \<and> ((\<forall>q. ok E (StatSync q) \<and> ok E (ReaddirSync q)) \<longrightarrow>
        snd (countItemsList E d items 0) = Inr (sum_list (map leaf_units items)))
   \<and> (ok E (ExistsSync d) \<and> ok E (ReaddirSync d) \<and> snd (countItemsList E d items 0) = Inr n \<longrightarrow>
        fst (shredDirectory E d items cb) =
           Call (ExistsSync d) True # Call (ReaddirSync d) True # fst (countItemsList E d items 0)
           @ fst (bind_io (processItemsList E n cb d items 0)
                    (\<lambda>k. catch_io (sys E (RmdirSync d)) (\<lambda>error. return_io ()))))
   \<and> (snd (countItemsList E d items 0) = Inl e \<longrightarrow>
        list_all is_query (fst (shredDirectory E d items cb)))"
  using count_result(2)[of E d items 0 n] count_queries(2)[of E d items 0]
    count_total(2)[of E d items 0] shredDirectory_trace[of E d items n cb]
    shredDirectory_count_fails[of E d items e cb]
  by simp

theorem count_before_processing_witness:
  "(\<forall>q. ok (env_ok 10) (StatSync q) \<and> ok (env_ok 10) (ReaddirSync q))
   \<and> ok (env_ok 10) (ExistsSync ''/r'') \<and> ok (env_ok 10) (ReaddirSync ''/r'')
   \<and> snd (countItemsList (env_ok 10) ''/r'' [FileNode ''a'', DirNode ''d'' [FileNode ''b'']] 0) = Inr 3
   \<and> sum_list (map leaf_units [FileNode ''a'', DirNode ''d'' [FileNode ''b'']]) = 3
   \<and> leaf_units (DirNode ''r'' [FileNode ''a'', DirNode ''d'' [FileNode ''b'']]) = 4
   \<and> snd (countItemsList (env_refusing 10 [StatSync ''/r/a'']) ''/r'' [FileNode ''a''] 0)
        = Inl (FsError (StatSync ''/r/a''))
   \<and> list_all is_query (fst (shredDirectory (env_refusing 10 [StatSync ''/r/a''])
        ''/r'' [FileNode ''a''] None))"
proof -
  have h1: "\<forall>q. ok (env_ok 10) (StatSync q) \<and> ok (env_ok 10) (ReaddirSync q)"
    by (simp add: env_ok_def)
  have h2: "ok (env_ok 10) (ExistsSync ''/r'')"
    by (simp add: env_ok_def)
  have h3: "snd (countItemsList (env_refusing 10 [StatSync ''/r/a'']) ''/r'' [FileNode ''a''] 0)
        = Inl (FsError (StatSync ''/r/a''))"
    by (simp add: env_defs io_defs)
  have l: "sum_list (map leaf_units [FileNode ''a'', DirNode ''d'' [FileNode ''b'']]) = 3"
    "leaf_units (DirNode ''r'' [FileNode ''a'', DirNode ''d'' [FileNode ''b'']]) = 4"
    by simp_all
  note a = count_before_processing[of "env_ok 10" "''/r''"
      "[FileNode ''a'', DirNode ''d'' [FileNode ''b'']]" 3 "''r''" None]
  note b = count_before_processing[of "env_refusing 10 [StatSync ''/r/a'']" "''/r''"
      "[FileNode ''a'']" 0 "''r''" None "FsError (StatSync ''/r/a'')"]
  have c: "snd (countItemsList (env_ok 10) ''/r'' [FileNode ''a'', DirNode ''d'' [FileNode ''b'']] 0) = Inr 3"
    using a h1 unfolding l by blast
  have d: "list_all is_query (fst (shredDirectory (env_refusing 10 [StatSync ''/r/a''])
        ''/r'' [FileNode ''a''] None))"
    using b h3 by blast
  show ?thesis
    using h1 h2 h3 l c d by blast
qed

lemma processItemsList_abort:
  assumes "snd (processItemsList E T cb d pre k) = Inr k1"
    and "snd (processItems E T cb (path_join E d (node_name c)) c k1) = Inl e"
  shows "processItemsList E T cb d (pre @ c # post) k =
           (fst (processItemsList E T cb d pre k)
            @ fst (processItems E T cb (path_join E d (node_name c)) c k1), Inl e)"
  using assms
proof (induction pre arbitrary: k)
  case Nil
  then show ?case
    by (cases "processItems E T cb (path_join E d (node_name c)) c k1")
       (simp add: bind_io_def return_io_def)
next
  case (Cons item pre)
  obtain t r where pi: "processItems E T cb (path_join E d (node_name item)) item k = (t, r)"
    by (cases "processItems E T cb (path_join E d (node_name item)) item k") auto
  from Cons.prems(1) pi obtain k' where r: "r = Inr k'"
    and rest: "snd (processItemsList E T cb d pre k') = Inr k1"
    by (cases r) (auto simp: bind_io_def split: prod.splits)
  from Cons.IH[OF rest Cons.prems(2)]
  have "processItemsList E T cb d (pre @ c # post) k' =
           (fst (processItemsList E T cb d pre k')
            @ fst (processItems E T cb (path_join E d (node_name c)) c k1), Inl e)" .
  then show ?case
    using pi r by (simp add: bind_io_def split: prod.splits)
qed

lemmas eval_defs = io_defs engine_defs file_defs env_defs dir_defs upt_rec Let_def floor_rat_numeral

subsection \<open>Bounded, non-decreasing progress\<close>

lemma rising_Nil: "rising lo hi []"
  by (simp add: rising_def)

lemma rising_single: "lo \<le> v \<Longrightarrow> v \<le> hi \<Longrightarrow> rising lo hi [v]"
  by (simp add: rising_def)

lemma rising_mono: "rising lo hi xs \<Longrightarrow> lo' \<le> lo \<Longrightarrow> hi \<le> hi' \<Longrightarrow> rising lo' hi' xs"
  by (auto simp: rising_def list_all_iff)

lemma rising_append:
  "rising lo mid xs \<Longrightarrow> rising mid hi ys \<Longrightarrow> lo \<le> mid \<Longrightarrow> mid \<le> hi \<Longrightarrow> rising lo hi (xs @ ys)"
  by (fastforce simp: rising_def list_all_iff sorted_append)

lemma progress_values_append: "progress_values (t @ t') = progress_values t @ progress_values t'"
  by (induction t rule: progress_values.induct) auto

lemma progress_values_nil: "list_all (\<lambda>e. progress_values [e] = []) t \<Longrightarrow> progress_values t = []"
  by (induction t rule: progress_values.induct) auto

lemma pv_bind:
  "progress_values (fst (bind_io m f)) =
     progress_values (fst m) @ (case snd m of Inl e \<Rightarrow> [] | Inr x \<Rightarrow> progress_values (fst (f x)))"
  by (simp add: fst_bind_io progress_values_append split: sum.splits)

lemma pv_sys: "progress_values (fst (sys E c)) = []"
  by (simp add: sys_def)

lemma pv_ask: "progress_values (fst (ask E c)) = []"
  by (simp add: ask_def)

lemma pv_return: "progress_values (fst (return_io x)) = []"
  by (simp add: return_io_def)

lemma pv_throw: "progress_values (fst (throw_io x)) = []"
  by (simp add: throw_io_def)

lemma pv_gen: "progress_values (fst (generateSecureRandomData n)) = []"
  by (simp add: generateSecureRandomData_def emit_def)

lemma pv_call_cb: "progress_values (fst (call_cb (Some (\<lambda>v. [h v])) x)) = [h x]"
  by (simp add: call_cb_def emit_def)

lemma Math_round_mono: "x \<le> y \<Longrightarrow> Math_round x \<le> Math_round y"
  by (simp add: Math_round_def floor_mono)

lemma Math_round_int: "Math_round (of_int n) = n"
  unfolding Math_round_def by linarith

text \<open>A loop whose iteration \<open>i\<close> stays between the marks \<open>b i\<close> and \<open>b (i + 1)\<close>.\<close>

lemma forEach_chain:
  assumes body: "\<And>i. m \<le> i \<Longrightarrow> i < n \<Longrightarrow> rising (b i) (b (Suc i)) (progress_values (fst (body i)))"
    and mono: "\<And>i j. i \<le> j \<Longrightarrow> j \<le> n \<Longrightarrow> b i \<le> b j"
    and mn: "m \<le> n"
  shows "rising (b m) (b n) (progress_values (fst (forEach [m..<n] body)))"
  using body mn
proof (induction "n - m" arbitrary: m)
  case 0
  then show ?case by (simp add: rising_Nil return_io_def)
next
  case (Suc d)
  then have lt: "m < n" by simp
  have unf: "forEach [m..<n] body = bind_io (body m) (\<lambda>u. forEach [Suc m..<n] body)"
    using lt by (simp add: upt_conv_Cons)
  have first: "rising (b m) (b (Suc m)) (progress_values (fst (body m)))"
    using Suc.prems(1)[of m] lt by simp
  have rest: "rising (b (Suc m)) (b n) (progress_values (fst (forEach [Suc m..<n] body)))"
  proof (rule Suc.hyps(1))
    show "d = n - Suc m" using Suc.hyps(2) by simp
    show "\<And>i. Suc m \<le> i \<Longrightarrow> i < n \<Longrightarrow> rising (b i) (b (Suc i)) (progress_values (fst (body i)))"
      using Suc.prems(1) by simp
    show "Suc m \<le> n" using lt by simp
  qed
  have le1: "b m \<le> b (Suc m)" using mono[of m "Suc m"] lt by simp
  have le2: "b (Suc m) \<le> b n" using mono[of "Suc m" n] lt by simp
  show ?case
  proof (cases "snd (body m)")
    case (Inl e)
    then show ?thesis
      unfolding unf pv_bind using rising_mono[OF first order_refl le2] by simp
  next
    case (Inr u)
    then show ?thesis
      unfolding unf pv_bind using rising_append[OF first rest le1 le2] by simp
  qed
qed


lemma pv_write_chunk:
  "progress_values (fst (write_chunk E p pat (Some (\<lambda>v. [h v])) s e fs bs i)) =
     (if ok E (WriteSync p pat bs (i * bs))
      then [h (Math_round (js_add s (js_mul (js_sub e s) (js_div (of_nat (Suc i * bs)) (of_nat fs)))))]
      else [])"
  unfolding write_chunk_def
  by (simp add: pv_bind pv_gen pv_return pv_sys pv_call_cb snd_gen snd_return sys_def)

lemma fraction_le_one:
  assumes "n * bs \<le> fs"
  shows "(of_nat (n * bs) / of_nat fs :: rat) \<le> 1"
proof (cases "fs = 0")
  case True
  then show ?thesis by simp
next
  case False
  then have "(0 :: rat) < of_nat fs" by simp
  moreover have "(of_nat (n * bs) :: rat) \<le> of_nat fs"
    using assms by (simp only: of_nat_le_iff)
  ultimately show ?thesis by (simp add: divide_le_eq)
qed

text \<open>
  The values reported by the loop over the full buffers of one pass stay in the window of
  the pass, when the start of the window is a double, the window is not empty and the end
  of the window is not overshot by adding its width to its start.
\<close>

lemma chunk_loop_rising:
  assumes h: "mono h" and s: "fl s = s" and se: "s \<le> e"
    and top: "Math_round (js_add s (js_sub e s)) \<le> Math_round e"
    and n: "n * bs \<le> fs"
  shows "rising (h (Math_round s)) (h (Math_round e))
           (progress_values (fst (forEach [0..<n] (write_chunk E p pat (Some (\<lambda>v. [h v])) s e fs bs))))"
proof -
  define P where "P i = js_add s (js_mul (js_sub e s) (js_div (of_nat (i * bs)) (of_nat fs)))" for i
  define b where "b i = h (Math_round (P i))" for i
  have d: "0 \<le> js_sub e s"
    unfolding js_sub_def using se by (intro fl_ge0) simp
  have P_mono: "P i \<le> P j" if "i \<le> j" for i j
  proof -
    have "(of_nat (i * bs) :: rat) \<le> of_nat (j * bs)"
      using that by (simp only: of_nat_le_iff) simp
    then have "js_div (of_nat (i * bs)) (of_nat fs) \<le> js_div (of_nat (j * bs)) (of_nat fs)"
      by (rule js_div_mono) simp
    then have "js_mul (js_sub e s) (js_div (of_nat (i * bs)) (of_nat fs))
        \<le> js_mul (js_sub e s) (js_div (of_nat (j * bs)) (of_nat fs))"
      using d by (rule js_mul_mono_left)
    then show ?thesis
      unfolding P_def by (rule js_add_mono)
  qed
  have mono_b: "b i \<le> b j" if "i \<le> j" for i j
    unfolding b_def using P_mono[OF that] by (intro monoD[OF h] Math_round_mono)
  have body: "rising (b i) (b (Suc i))
       (progress_values (fst (write_chunk E p pat (Some (\<lambda>v. [h v])) s e fs bs i)))" for i
    unfolding pv_write_chunk
    using mono_b[of i "Suc i"] by (simp add: rising_Nil rising_single b_def P_def)
  have chain: "rising (b 0) (b n)
       (progress_values (fst (forEach [0..<n] (write_chunk E p pat (Some (\<lambda>v. [h v])) s e fs bs))))"
    by (rule forEach_chain) (simp_all add: body mono_b)
  have "P 0 = s"
    by (simp add: P_def js_defs fl_0 s)
  then have b0: "b 0 = h (Math_round s)"
    by (simp add: b_def)
  have "js_div (of_nat (n * bs)) (of_nat fs) \<le> 1"
    unfolding js_div_def using fl_mono[OF fraction_le_one[OF n]] by (simp add: fl_1)
  then have "js_sub e s * js_div (of_nat (n * bs)) (of_nat fs) \<le> js_sub e s * 1"
    using d by (rule mult_left_mono)
  then have "js_mul (js_sub e s) (js_div (of_nat (n * bs)) (of_nat fs)) \<le> js_sub e s"
    unfolding js_mul_def using fl_mono[of _ "js_sub e s"] by (simp add: js_sub_def fl_idem)
  then have "P n \<le> js_add s (js_sub e s)"
    unfolding P_def by (rule js_add_mono)
  then have "Math_round (P n) \<le> Math_round (js_add s (js_sub e s))"
    by (rule Math_round_mono)
  then have "Math_round (P n) \<le> Math_round e"
    using top by linarith
  then have bn: "b n \<le> h (Math_round e)"
    unfolding b_def by (rule monoD[OF h])
  show ?thesis
    using rising_mono[OF chain] b0 bn by simp
qed

lemma pv_inner:
  assumes "progress_values (fst g) = []" and "progress_values (fst rem) = []"
  shows "progress_values (fst (bind_io g (\<lambda>u. bind_io loop (\<lambda>u. bind_io rem (\<lambda>u. sys E c))))) = []
       \<or> progress_values (fst (bind_io g (\<lambda>u. bind_io loop (\<lambda>u. bind_io rem (\<lambda>u. sys E c)))))
           = progress_values (fst loop)"
  using assms by (simp add: pv_bind pv_sys split: sum.splits)

lemma pv_rnd_if: "progress_values (fst (if b then generateSecureRandomData n else return_io ())) = []"
  by (simp add: pv_gen pv_return)

lemma pv_remainder:
  "progress_values (fst (case (fb, rb) of
                   (Some n, Some r) \<Rightarrow>
                     if r > 0 then
                       bind_io (if pat = None then generateSecureRandomData r else return_io ()) (\<lambda>u.
                       sys E (WriteSync p pat r (n * bs)))
                     else return_io ()
                 | _ \<Rightarrow> return_io ())) = []"
  by (cases fb; cases rb) (simp_all add: pv_bind pv_rnd_if pv_sys pv_return split: sum.splits)

lemma pv_outer:
  assumes "progress_values (fst inner) = [] \<or> progress_values (fst inner) = L"
  shows "progress_values (fst (bind_io (emit [OverwritePass p pat s e]) (\<lambda>u.
            bind_io (sys E c1) (\<lambda>u. bind_io (sys E c2) (\<lambda>u. finally_io inner (sys E c3)))))) = []
       \<or> progress_values (fst (bind_io (emit [OverwritePass p pat s e]) (\<lambda>u.
            bind_io (sys E c1) (\<lambda>u. bind_io (sys E c2) (\<lambda>u. finally_io inner (sys E c3)))))) = L"
  using assms
  by (auto simp: pv_bind pv_sys fst_finally_io progress_values_append emit_def split: sum.splits)

lemma pv_owp:
  "progress_values (fst (overwriteFileWithPattern E p pat cb s e)) = []
   \<or> (min (1024 * 1024) (size_of E p) \<noteq> 0
      \<and> progress_values (fst (overwriteFileWithPattern E p pat cb s e)) =
        progress_values (fst (forEach [0..<size_of E p div min (1024 * 1024) (size_of E p)]
          (write_chunk E p pat cb s e (size_of E p) (min (1024 * 1024) (size_of E p))))))"
proof (cases "min (1024 * 1024) (size_of E p) = 0")
  case True
  have "progress_values (fst (overwriteFileWithPattern E p pat cb s e)) = []
     \<or> progress_values (fst (overwriteFileWithPattern E p pat cb s e)) = []"
    unfolding overwriteFileWithPattern_def Let_def
    apply (rule pv_outer)
    apply (simp only: True if_True option.case forEach.simps)
    apply (simp add: pv_bind pv_rnd_if pv_return pv_sys split: sum.splits)
    done
  then show ?thesis by simp
next
  case False
  have "progress_values (fst (overwriteFileWithPattern E p pat cb s e)) = []
     \<or> progress_values (fst (overwriteFileWithPattern E p pat cb s e)) =
        progress_values (fst (forEach [0..<size_of E p div min (1024 * 1024) (size_of E p)]
          (write_chunk E p pat cb s e (size_of E p) (min (1024 * 1024) (size_of E p)))))"
    unfolding overwriteFileWithPattern_def Let_def
    apply (rule pv_outer)
    apply (simp only: False if_False option.case)
    apply (rule pv_inner)
     apply (rule pv_rnd_if)
    apply (rule pv_remainder)
    done
  then show ?thesis using False by blast
qed

lemma owp_rising:
  assumes h: "mono h" and s: "fl s = s" and se: "s \<le> e"
    and top: "Math_round (js_add s (js_sub e s)) \<le> Math_round e"
  shows "rising (h (Math_round s)) (h (Math_round e))
           (progress_values (fst (overwriteFileWithPattern E p pat (Some (\<lambda>v. [h v])) s e)))"
proof -
  have "size_of E p div min (1024 * 1024) (size_of E p) * min (1024 * 1024) (size_of E p) \<le> size_of E p"
    by simp
  from chunk_loop_rising[OF h s se top this, of E p pat]
  show ?thesis
    using pv_owp[of E p pat "Some (\<lambda>v. [h v])" s e] by (auto simp: rising_Nil)
qed

lemma dod_steps:
  "wipe_step E p cb [Some 0, Some 255, None] 0 =
     overwriteFileWithPattern E p (Some 0) cb 0 (2345624805922133 / 70368744177664)"
  "wipe_step E p cb [Some 0, Some 255, None] (Suc 0) =
     overwriteFileWithPattern E p (Some 255) cb (2345624805922133 / 70368744177664) (2345624805922133 / 35184372088832)"
  "wipe_step E p cb [Some 0, Some 255, None] 2 =
     overwriteFileWithPattern E p None cb (2345624805922133 / 35184372088832) 100"
  by (simp_all add: wipe_step_def Let_def dod_windows)

lemma dod_marks:
  "Math_round 0 = 0" "Math_round (2345624805922133 / 70368744177664) = 33" "Math_round (2345624805922133 / 35184372088832) = 67" "Math_round 100 = 100"
  using Math_round_int[of 0] Math_round_int[of 100]
  by (simp_all add: Math_round_def floor_rat_numeral)

lemma dod_window_0:
  "fl 0 = 0"
  "Math_round (js_add 0 (js_sub (2345624805922133 / 70368744177664) 0)) \<le> Math_round (2345624805922133 / 70368744177664)"
  by (simp_all add: js_defs fl_eval Math_round_def)

lemma dod_window_1:
  "fl (2345624805922133 / 70368744177664) = 2345624805922133 / 70368744177664"
  "Math_round (js_add (2345624805922133 / 70368744177664) (js_sub (2345624805922133 / 35184372088832) (2345624805922133 / 70368744177664))) \<le> Math_round (2345624805922133 / 35184372088832)"
  by (simp_all add: js_defs fl_eval Math_round_def)

lemma dod_window_2:
  "fl (2345624805922133 / 35184372088832) = 2345624805922133 / 35184372088832"
  "Math_round (js_add (2345624805922133 / 35184372088832) (js_sub 100 (2345624805922133 / 35184372088832))) \<le> Math_round 100"
  by (simp_all add: js_defs fl_eval Math_round_def)

lemma performDoDWipe_rising:
  assumes h: "mono h"
  shows "rising (h 0) (h 100) (progress_values (fst (performDoDWipe E p (Some (\<lambda>v. [h v])))))"
proof -
  let ?cb = "Some (\<lambda>v. [h v])"
  define b :: "nat \<Rightarrow> int" where "b i = h (if i = 0 then 0 else if i = 1 then 33 else if i = 2 then 67 else 100)" for i
  have mono_b: "b i \<le> b j" if "i \<le> j" for i j
    unfolding b_def using that by (intro monoD[OF h]) simp
  have r0: "rising (h 0) (h 33) (progress_values (fst (wipe_step E p ?cb [Some 0, Some 255, None] 0)))"
    using owp_rising[OF h dod_window_0(1) _ dod_window_0(2), of E p "Some 0"]
    by (simp add: dod_steps dod_marks)
  have r1: "rising (h 33) (h 67) (progress_values (fst (wipe_step E p ?cb [Some 0, Some 255, None] (Suc 0))))"
    using owp_rising[OF h dod_window_1(1) _ dod_window_1(2), of E p "Some 255"]
    by (simp add: dod_steps dod_marks)
  have r2: "rising (h 67) (h 100) (progress_values (fst (wipe_step E p ?cb [Some 0, Some 255, None] 2)))"
    using owp_rising[OF h dod_window_2(1) _ dod_window_2(2), of E p None]
    by (simp add: dod_steps dod_marks)
  have chain: "rising (b 0) (b (length [Some 0, Some 255, None :: nat option]))
       (progress_values (fst (forEach [0..<length [Some 0, Some 255, None :: nat option]]
          (wipe_step E p ?cb [Some 0, Some 255, None]))))"
  proof (rule forEach_chain)
    fix i :: nat
    assume "i < length [Some 0, Some 255, None :: nat option]"
    then have "i < 3" by simp
    then consider "i = 0" | "i = Suc 0" | "i = 2" by linarith
    then show "rising (b i) (b (Suc i)) (progress_values (fst (wipe_step E p ?cb [Some 0, Some 255, None] i)))"
    proof cases
      case 1
      then show ?thesis using r0 by (simp add: b_def)
    next
      case 2
      then show ?thesis using r1 by (simp add: b_def)
    next
      case 3
      then show ?thesis using r2 by (simp add: b_def)
    qed
  next
    fix i j :: nat
    assume "i \<le> j"
    then show "b i \<le> b j" by (rule mono_b)
  next
    show "(0 :: nat) \<le> length [Some 0, Some 255, None :: nat option]" by simp
  qed
  have "b 0 = h 0" "b (length [Some 0, Some 255, None :: nat option]) = h 100"
    by (simp_all add: b_def)
  then show ?thesis
    using chain unfolding performDoDWipe_def catch_throw dod_internal_unfold by simp
qed

lemma pv_secureDeleteFileName: "progress_values (fst (secureDeleteFileName E p)) = []"
  by (rule progress_values_nil, rule la_secureDeleteFileName) simp_all

lemma pv_shredSingleFile:
  "progress_values (fst (shredSingleFile E p cb)) = []
   \<or> progress_values (fst (shredSingleFile E p cb)) = progress_values (fst (performDoDWipe E p cb))"
  unfolding shredSingleFile_def catch_throw
  by (simp add: pv_bind pv_ask pv_throw pv_secureDeleteFileName split: sum.splits)

lemma shredSingleFile_rising:
  assumes "mono h"
  shows "rising (h 0) (h 100) (progress_values (fst (shredSingleFile E p (Some (\<lambda>v. [h v])))))"
  using pv_shredSingleFile[of E p "Some (\<lambda>v. [h v])"] performDoDWipe_rising[OF assms, of E p]
  by (auto simp: rising_Nil)

lemma overall_mono: "i \<le> j \<Longrightarrow> overall T i \<le> overall T j"
  unfolding overall_def
  by (intro floor_mono js_mul_mono js_div_mono) simp_all

lemma overall_in_file_mono: "mono (overall_in_file T k)"
proof (rule monoI)
  fix v w :: int
  assume "v \<le> w"
  then have "(of_int v :: rat) \<le> of_int w" by simp
  then have "js_div (of_int v) 100 \<le> js_div (of_int w) 100"
    by (rule js_div_mono) simp
  then have "js_add (of_nat k) (js_div (of_int v) 100) \<le> js_add (of_nat k) (js_div (of_int w) 100)"
    by (rule js_add_mono)
  then show "overall_in_file T k v \<le> overall_in_file T k w"
    unfolding overall_in_file_def
    by (intro floor_mono js_mul_mono js_div_mono) simp_all
qed

lemma overall_in_file_0: "k \<le> 2 ^ 53 \<Longrightarrow> overall_in_file T k 0 = overall T k"
  by (simp add: overall_in_file_def overall_def js_div_def[of 0] js_add_def fl_0 fl_of_nat)

lemma overall_in_file_100:
  assumes "Suc k \<le> 2 ^ 53"
  shows "overall_in_file T k 100 = overall T (Suc k)"
proof -
  have "js_add (of_nat k) (js_div 100 100) = fl (of_nat (Suc k))"
    by (simp add: js_div_def js_add_def fl_1 add.commute)
  then show ?thesis
    unfolding overall_in_file_def overall_def using fl_of_nat[OF assms] by simp
qed

lemma overall_0: "overall T 0 = 0"
  by (simp add: overall_def js_defs fl_0)

lemma overall_full: "0 < T \<Longrightarrow> overall T T = 100"
  by (simp add: overall_def js_defs fl_1 fl_100)

lemma fileCallback_report:
  "fileCallback (Some report) T k = Some (\<lambda>v. [overall_in_file T k v])"
  by (simp add: fileCallback_def report_def overall_in_file_def)

lemma file_in_tree_rising:
  assumes "Suc k \<le> 2 ^ 53"
  shows "rising (overall T k) (overall T (Suc k))
     (progress_values (fst (shredSingleFile E p (fileCallback (Some report) T k))))"
proof -
  have k: "k \<le> 2 ^ 53" using assms by simp
  show ?thesis
    using shredSingleFile_rising[OF overall_in_file_mono, of T k E p]
    by (simp add: fileCallback_report overall_in_file_0[OF k] overall_in_file_100[OF assms])
qed


lemma rising_last_eq: "rising a a xs \<Longrightarrow> xs \<noteq> [] \<Longrightarrow> last xs = a"
proof -
  assume r: "rising a a xs" and ne: "xs \<noteq> []"
  then have "last xs \<in> set xs" by simp
  with r show ?thesis by (auto simp: rising_def list_all_iff)
qed

lemma pv_call_report: "progress_values (fst (call_cb (Some report) x)) = [x]"
  by (simp add: call_cb_def emit_def report_def)

lemma process_spec_return: "process_spec T k 0 (return_io k)"
  by (simp add: process_spec_def return_io_def rising_Nil)

lemma process_spec_bind:
  assumes m: "process_spec T k u1 m"
    and f: "process_spec T (k + u1) u2 (f (k + u1))"
  shows "process_spec T k (u1 + u2) (bind_io m f)"
proof (cases "snd m")
  case (Inl e)
  have "rising (overall T k) (overall T (k + u1)) (progress_values (fst m))"
    using m by (simp add: process_spec_def)
  then have "rising (overall T k) (overall T (k + (u1 + u2))) (progress_values (fst m))"
    by (rule rising_mono) (simp_all add: overall_mono)
  then show ?thesis
    using Inl by (simp add: process_spec_def pv_bind snd_bind_io)
next
  case (Inr k1)
  have k1: "k1 = k + u1"
    using m Inr by (simp add: process_spec_def)
  have rm: "rising (overall T k) (overall T (k + u1)) (progress_values (fst m))"
    using m by (simp add: process_spec_def)
  have rf: "rising (overall T (k + u1)) (overall T (k + u1 + u2)) (progress_values (fst (f (k + u1))))"
    using f by (simp add: process_spec_def)
  have pv: "progress_values (fst (bind_io m f)) =
      progress_values (fst m) @ progress_values (fst (f (k + u1)))"
    using Inr k1 by (simp add: pv_bind)
  have sn: "snd (bind_io m f) = snd (f (k + u1))"
    using Inr k1 by (simp add: snd_bind_io)
  have r: "rising (overall T k) (overall T (k + (u1 + u2))) (progress_values (fst (bind_io m f)))"
    unfolding pv using rising_append[OF rm rf] by (simp add: overall_mono add.assoc)
  have res: "k' = k + (u1 + u2)
        \<and> (0 < u1 + u2 \<longrightarrow> progress_values (fst (bind_io m f)) \<noteq> []
             \<and> last (progress_values (fst (bind_io m f))) = overall T k')"
    if ok: "snd (bind_io m f) = Inr k'" for k'
  proof -
    have fk: "snd (f (k + u1)) = Inr k'" using ok sn by simp
    then have k': "k' = k + u1 + u2"
      using f by (simp add: process_spec_def)
    show ?thesis
    proof (cases "0 < u2")
      case True
      then have "progress_values (fst (f (k + u1))) \<noteq> []"
        and "last (progress_values (fst (f (k + u1)))) = overall T k'"
        using f fk by (simp_all add: process_spec_def)
      then show ?thesis
        unfolding pv using k' by simp
    next
      case False
      then have u2: "u2 = 0" by simp
      have rf0: "rising (overall T (k + u1)) (overall T (k + u1)) (progress_values (fst (f (k + u1))))"
        using rf u2 by simp
      show ?thesis
      proof (cases "progress_values (fst (f (k + u1))) = []")
        case True
        then show ?thesis
          unfolding pv using m Inr k1 k' u2 by (simp add: process_spec_def)
      next
        case False
        then show ?thesis
          unfolding pv using rising_last_eq[OF rf0 False] k' u2 by simp
      qed
    qed
  qed
  show ?thesis
    unfolding process_spec_def using r res by blast
qed

lemma processItems_file_eq:
  "processItems E T cb p (FileNode n) k =
     bind_io (sys E (StatSync p)) (\<lambda>u.
     bind_io (shredSingleFile E p (fileCallback cb T k)) (\<lambda>u.
     bind_io (call_cb cb (overall T (k + 1))) (\<lambda>u.
     return_io (k + 1))))"
  by (simp only: processItems.simps overall_def)

lemma processItems_dir_eq:
  "processItems E T cb p (DirNode n subItems) k =
     bind_io (sys E (StatSync p)) (\<lambda>u.
     bind_io (sys E (ReaddirSync p)) (\<lambda>u.
     bind_io (processItemsList E T cb p subItems k) (\<lambda>k'.
     bind_io (catch_io (sys E (RmdirSync p)) (\<lambda>error. return_io ())) (\<lambda>u.
     bind_io (call_cb cb (overall T (k' + 1))) (\<lambda>u.
     return_io (k' + 1))))))"
  by (simp only: processItems.simps overall_def)

lemma pv_catch_rmdir: "progress_values (fst (catch_io (sys E c) (\<lambda>error. return_io ()))) = []"
  by (simp add: fst_catch_io sys_def return_io_def)

lemma snd_catch_rmdir: "snd (catch_io (sys E c) (\<lambda>error. return_io ())) = Inr ()"
  by (simp add: snd_catch_io sys_def return_io_def)

lemma process_spec_file:
  assumes "Suc k \<le> 2 ^ 53"
  shows "process_spec T k 1 (processItems E T (Some report) p (FileNode n) k)"
proof -
  let ?s = "shredSingleFile E p (fileCallback (Some report) T k)"
  have r: "rising (overall T k) (overall T (Suc k)) (progress_values (fst ?s))"
    using assms by (rule file_in_tree_rising)
  have one: "rising (overall T (Suc k)) (overall T (Suc k)) [overall T (Suc k)]"
    by (simp add: rising_single)
  have app: "rising (overall T k) (overall T (Suc k)) (progress_values (fst ?s) @ [overall T (Suc k)])"
    using rising_append[OF r one] by (simp add: overall_mono)
  show ?thesis
  proof (cases "ok E (StatSync p)")
    case False
    then show ?thesis
      unfolding processItems_file_eq process_spec_def
      by (simp add: pv_bind snd_bind_io sys_def rising_Nil)
  next
    case True
    show ?thesis
    proof (cases "snd ?s")
      case (Inl e)
      then show ?thesis
        unfolding processItems_file_eq process_spec_def
        using True r by (simp add: pv_bind snd_bind_io sys_def)
    next
      case (Inr u)
      then show ?thesis
        unfolding processItems_file_eq process_spec_def
        using True app
        by (simp add: pv_bind snd_bind_io sys_def pv_call_report snd_call_cb pv_return snd_return)
    qed
  qed
qed

lemma process_spec_dir:
  assumes l: "process_spec T k u (processItemsList E T (Some report) p subItems k)"
  shows "process_spec T k (1 + u) (processItems E T (Some report) p (DirNode n subItems) k)"
proof -
  let ?l = "processItemsList E T (Some report) p subItems k"
  have r: "rising (overall T k) (overall T (k + u)) (progress_values (fst ?l))"
    using l by (simp add: process_spec_def)
  show ?thesis
  proof (cases "ok E (StatSync p) \<and> ok E (ReaddirSync p)")
    case False
    then show ?thesis
      unfolding processItems_dir_eq process_spec_def
      by (auto simp: pv_bind snd_bind_io sys_def rising_Nil)
  next
    case True
    show ?thesis
    proof (cases "snd ?l")
      case (Inl e)
      have "rising (overall T k) (overall T (k + (1 + u))) (progress_values (fst ?l))"
        using r by (rule rising_mono) (simp_all add: overall_mono)
      then show ?thesis
        unfolding processItems_dir_eq process_spec_def
        using True Inl by (simp add: pv_bind snd_bind_io sys_def)
    next
      case (Inr k')
      then have k': "k' = k + u"
        using l by (simp add: process_spec_def)
      have one: "rising (overall T (k + u)) (overall T (k + (1 + u))) [overall T (k' + 1)]"
        using k' by (simp add: rising_single overall_mono)
      have app: "rising (overall T k) (overall T (k + (1 + u)))
          (progress_values (fst ?l) @ [overall T (k' + 1)])"
        using rising_append[OF r one] by (simp add: overall_mono)
      show ?thesis
        unfolding processItems_dir_eq process_spec_def
        using True Inr app k'
        by (simp add: pv_bind snd_bind_io snd_sys_ok pv_sys pv_call_report snd_call_cb pv_return
            snd_return pv_catch_rmdir snd_catch_rmdir)
    qed
  qed
qed

lemma process_spec_list:
  assumes "\<And>item p k. item \<in> set items \<Longrightarrow> k + leaf_units item \<le> 2 ^ 53 \<Longrightarrow>
             process_spec T k (leaf_units item) (processItems E T (Some report) p item k)"
    and "k + sum_list (map leaf_units items) \<le> 2 ^ 53"
  shows "process_spec T k (sum_list (map leaf_units items))
           (processItemsList E T (Some report) p items k)"
  using assms
proof (induction items arbitrary: k)
  case Nil
  then show ?case by (simp add: process_spec_return)
next
  case (Cons item rest)
  have a: "process_spec T k (leaf_units item)
      (processItems E T (Some report) (path_join E p (node_name item)) item k)"
    using Cons.prems(2) by (intro Cons.prems(1)) simp_all
  have b: "process_spec T (k + leaf_units item) (sum_list (map leaf_units rest))
      (processItemsList E T (Some report) p rest (k + leaf_units item))"
  proof (rule Cons.IH)
    show "\<And>item p k. item \<in> set rest \<Longrightarrow> k + leaf_units item \<le> 2 ^ 53 \<Longrightarrow>
             process_spec T k (leaf_units item) (processItems E T (Some report) p item k)"
      using Cons.prems(1) by simp
    show "k + leaf_units item + sum_list (map leaf_units rest) \<le> 2 ^ 53"
      using Cons.prems(2) by (simp add: add.assoc)
  qed
  show ?case
    using process_spec_bind[OF a, of "sum_list (map leaf_units rest)"
        "\<lambda>k1. processItemsList E T (Some report) p rest k1", OF b]
    by simp
qed

lemma process_spec_node:
  "k + leaf_units node \<le> 2 ^ 53 \<Longrightarrow>
   process_spec T k (leaf_units node) (processItems E T (Some report) p node k)"
proof (induction node arbitrary: p k)
  case (FileNode n)
  then show ?case using process_spec_file[of k T E p n] by simp
next
  case (DirNode n subItems)
  have "process_spec T k (sum_list (map leaf_units subItems))
      (processItemsList E T (Some report) p subItems k)"
  proof (rule process_spec_list)
    show "\<And>item p k. item \<in> set subItems \<Longrightarrow> k + leaf_units item \<le> 2 ^ 53 \<Longrightarrow>
             process_spec T k (leaf_units item) (processItems E T (Some report) p item k)"
      by (rule DirNode.IH)
    show "k + sum_list (map leaf_units subItems) \<le> 2 ^ 53"
      using DirNode.prems by simp
  qed
  then show ?case
    using process_spec_dir by simp
qed

lemma process_spec_items:
  "k + sum_list (map leaf_units items) \<le> 2 ^ 53 \<Longrightarrow>
   process_spec T k (sum_list (map leaf_units items)) (processItemsList E T (Some report) p items k)"
  by (rule process_spec_list) (rule process_spec_node)


lemma pv_queries: "list_all is_query t \<Longrightarrow> progress_values t = []"
proof (induction t)
  case Nil
  then show ?case by simp
next
  case (Cons x t)
  then show ?case by (cases x) simp_all
qed

lemma leaf_units_pos: "0 < leaf_units node"
  by (cases node) simp_all

lemma sum_leaf_units_pos: "items \<noteq> [] \<Longrightarrow> 0 < sum_list (map leaf_units items)"
  by (cases items) (simp_all add: leaf_units_pos)

lemma shredDirectory_success:
  assumes "snd (shredDirectory E d items cb) = Inr ()"
  shows "ok E (ExistsSync d) \<and> ok E (ReaddirSync d)
         \<and> (\<exists>n k'. snd (countItemsList E d items 0) = Inr n
                \<and> snd (processItemsList E n cb d items 0) = Inr k')"
  using assms unfolding shredDirectory_def
  by (auto simp: snd_catch_io snd_bind_io ask_def sys_def throw_io_def split: sum.splits if_splits)

lemma pv_shredDirectory:
  "progress_values (fst (shredDirectory E d items cb)) = []
   \<or> (\<exists>n. snd (countItemsList E d items 0) = Inr n
         \<and> progress_values (fst (shredDirectory E d items cb)) =
             progress_values (fst (processItemsList E n cb d items 0)))"
proof (cases "ok E (ExistsSync d) \<and> ok E (ReaddirSync d)")
  case False
  then have "progress_values (fst (shredDirectory E d items cb)) = []"
    unfolding shredDirectory_def
    by (auto simp: fst_catch_io fst_bind_io snd_bind_io ask_def sys_def throw_io_def)
  then show ?thesis by simp
next
  case True
  show ?thesis
  proof (cases "snd (countItemsList E d items 0)")
    case (Inl e)
    then have "progress_values (fst (shredDirectory E d items cb)) = []"
      by (intro pv_queries shredDirectory_count_fails)
    then show ?thesis by simp
  next
    case (Inr n)
    have q: "progress_values (fst (countItemsList E d items 0)) = []"
      by (rule pv_queries) (rule count_queries)
    have "progress_values (fst (shredDirectory E d items cb)) =
             progress_values (fst (processItemsList E n cb d items 0))"
      using True Inr q
      by (simp add: shredDirectory_trace[of E d items n cb] progress_values_append pv_bind
          pv_catch_rmdir split: sum.splits)
    then show ?thesis using Inr by blast
  qed
qed

lemma directory_rising:
  assumes small: "sum_list (map leaf_units items) \<le> 2 ^ 53"
  shows "rising 0 100 (progress_values (fst (shredDirectory E d items (Some report))))"
proof -
  consider "progress_values (fst (shredDirectory E d items (Some report))) = []"
    | n where "snd (countItemsList E d items 0) = Inr n"
      "progress_values (fst (shredDirectory E d items (Some report))) =
         progress_values (fst (processItemsList E n (Some report) d items 0))"
    using pv_shredDirectory[of E d items "Some report"] by blast
  then show ?thesis
  proof cases
    case 1
    then show ?thesis by (simp add: rising_Nil)
  next
    case (2 n)
    have n: "n = sum_list (map leaf_units items)"
      using count_result(2)[of E d items 0 n] 2(1) by simp
    have "rising (overall n 0) (overall n (0 + sum_list (map leaf_units items)))
        (progress_values (fst (processItemsList E n (Some report) d items 0)))"
      using process_spec_items[of 0 items n E d] small by (simp add: process_spec_def)
    then have r: "rising 0 (overall n n)
        (progress_values (fst (processItemsList E n (Some report) d items 0)))"
      using n by (simp add: overall_0)
    have "overall n n \<le> 100"
      by (cases "n = 0") (simp_all add: overall_0 overall_full)
    then show ?thesis
      unfolding 2(2) using rising_mono[OF r] by simp
  qed
qed

lemma directory_success:
  assumes small: "sum_list (map leaf_units items) \<le> 2 ^ 53"
    and ok: "snd (shredDirectory E d items (Some report)) = Inr ()"
  shows "(\<exists>b. last (fst (shredDirectory E d items (Some report))) = Call (RmdirSync d) b)
       \<and> (items \<noteq> [] \<longrightarrow> progress_values (fst (shredDirectory E d items (Some report))) \<noteq> []
            \<and> last (progress_values (fst (shredDirectory E d items (Some report)))) = 100)"
proof -
  obtain n k' where ex: "ok E (ExistsSync d)" and rd: "ok E (ReaddirSync d)"
    and cnt: "snd (countItemsList E d items 0) = Inr n"
    and prc: "snd (processItemsList E n (Some report) d items 0) = Inr k'"
    using shredDirectory_success[OF ok] by blast
  have n: "n = sum_list (map leaf_units items)"
    using count_result(2)[of E d items 0 n] cnt by simp
  have tr: "fst (shredDirectory E d items (Some report)) =
           Call (ExistsSync d) True # Call (ReaddirSync d) True # fst (countItemsList E d items 0)
           @ fst (processItemsList E n (Some report) d items 0) @ [Call (RmdirSync d) (ok E (RmdirSync d))]"
    using prc
    by (simp add: shredDirectory_trace[OF ex rd cnt] fst_bind_io fst_catch_io sys_def return_io_def)
  have l: "last (fst (shredDirectory E d items (Some report))) = Call (RmdirSync d) (ok E (RmdirSync d))"
    unfolding tr by simp
  have q: "progress_values (fst (countItemsList E d items 0)) = []"
    by (rule pv_queries) (rule count_queries)
  have pv: "progress_values (fst (shredDirectory E d items (Some report))) =
      progress_values (fst (processItemsList E n (Some report) d items 0))"
    unfolding tr by (simp add: progress_values_append q)
  have spec: "process_spec n 0 (sum_list (map leaf_units items))
      (processItemsList E n (Some report) d items 0)"
    using small by (intro process_spec_items) simp
  have "progress_values (fst (processItemsList E n (Some report) d items 0)) \<noteq> []
        \<and> last (progress_values (fst (processItemsList E n (Some report) d items 0))) = 100"
    if "items \<noteq> []"
  proof -
    have pos: "0 < sum_list (map leaf_units items)"
      using that by (rule sum_leaf_units_pos)
    have "k' = n" using spec prc n by (simp add: process_spec_def)
    then show ?thesis
      using spec prc pos n by (simp add: process_spec_def overall_full)
  qed
  then show ?thesis
    using l pv by auto
qed

text \<open>
  Claim C6, as the code has it.  For a tree of at most \<open>2^53\<close> nodes (the range in which
  the counters of the traversal are exact), the overall progress values reported by a
  directory shred, computed in doubles as the code computes them, never decrease and lie
  between 0 and 100, whatever fails on the way.  When the shred succeeds, the last thing it
  does is remove the root directory, after every progress value was reported; and when the
  directory is not empty, the last value reported is 100.  The value 100 can be reported
  more than once.
\<close>

theorem directory_progress:
  assumes "sum_list (map leaf_units items) \<le> 2 ^ 53"
  shows "sorted (progress_values (fst (shredDirectory E d items (Some report))))
   \<and> list_all (\<lambda>v. 0 \<le> v \<and> v \<le> 100) (progress_values (fst (shredDirectory E d items (Some report))))
   \<and> (snd (shredDirectory E d items (Some report)) = Inr () \<longrightarrow>
        (\<exists>b. last (fst (shredDirectory E d items (Some report))) = Call (RmdirSync d) b)
        \<and> (items \<noteq> [] \<longrightarrow>
              progress_values (fst (shredDirectory E d items (Some report))) \<noteq> []
              \<and> last (progress_values (fst (shredDirectory E d items (Some report)))) = 100))"
  using directory_rising[OF assms, of E d] directory_success[OF assms, of E d]
  unfolding rising_def by blast

theorem directory_progress_witness:
  "snd (shredDirectory (env_ok 10) ''/r'' [FileNode ''a'', DirNode ''s'' [FileNode ''b'']] (Some report)) = Inr ()
   \<and> [FileNode ''a'', DirNode ''s'' [FileNode ''b'']] \<noteq> []
   \<and> progress_values (fst (shredDirectory (env_ok 10) ''/r'' [FileNode ''a'', DirNode ''s'' [FileNode ''b'']]
        (Some report))) = [11, 22, 33, 33, 44, 55, 66, 66, 100]
   \<and> sorted (progress_values (fst (shredDirectory (env_ok 10) ''/r''
        [FileNode ''a'', DirNode ''s'' [FileNode ''b'']] (Some report))))
   \<and> last (progress_values (fst (shredDirectory (env_ok 10) ''/r''
        [FileNode ''a'', DirNode ''s'' [FileNode ''b'']] (Some report)))) = 100
   \<and> last (fst (shredDirectory (env_ok 10) ''/r'' [FileNode ''a'', DirNode ''s'' [FileNode ''b'']]
        (Some report))) = Call (RmdirSync ''/r'') True"
proof -
  have s: "snd (shredDirectory (env_ok 10) ''/r'' [FileNode ''a'', DirNode ''s'' [FileNode ''b'']] (Some report)) = Inr ()"
    by (simp add: eval_defs)
  have v: "progress_values (fst (shredDirectory (env_ok 10) ''/r'' [FileNode ''a'', DirNode ''s'' [FileNode ''b'']]
        (Some report))) = [11, 22, 33, 33, 44, 55, 66, 66, 100]"
    by (simp add: eval_defs)
  have l: "last (fst (shredDirectory (env_ok 10) ''/r'' [FileNode ''a'', DirNode ''s'' [FileNode ''b'']]
        (Some report))) = Call (RmdirSync ''/r'') True"
    by (simp add: eval_defs)
  have b: "sum_list (map leaf_units [FileNode ''a'', DirNode ''s'' [FileNode ''b'']]) \<le> 2 ^ 53"
    by simp
  note t = directory_progress[OF b, of "env_ok 10" "''/r''"]
  show ?thesis
    using s v l t by blast
qed

section \<open>Writes and flushes\<close>

subsection \<open>Observations of a trace\<close>

lemma mf_append: "List.map_filter f (t @ t') = List.map_filter f t @ List.map_filter f t'"
  by (simp add: List.map_filter_def)

lemma mf_nil: "list_all (\<lambda>e. f e = None) t \<Longrightarrow> List.map_filter f t = []"
  by (induction t) (simp_all add:)

lemma mf_bind:
  "List.map_filter f (fst (bind_io m g)) =
     List.map_filter f (fst m) @ (case snd m of Inl e \<Rightarrow> [] | Inr x \<Rightarrow> List.map_filter f (fst (g x)))"
  by (simp add: fst_bind_io mf_append split: sum.splits)

lemma mf_catch:
  "List.map_filter f (fst (catch_io m h)) =
     List.map_filter f (fst m) @ (case snd m of Inl e \<Rightarrow> List.map_filter f (fst (h e)) | Inr x \<Rightarrow> [])"
  by (simp add: fst_catch_io mf_append split: sum.splits)

lemma mf_finally:
  "List.map_filter f (fst (finally_io m fin)) = List.map_filter f (fst m) @ List.map_filter f (fst fin)"
  by (simp add: fst_finally_io mf_append)

lemma mf_if:
  "List.map_filter f (fst (if b then x else y)) =
     (if b then List.map_filter f (fst x) else List.map_filter f (fst y))"
  by simp

lemma mf_return: "List.map_filter f (fst (return_io x)) = []"
  by (simp add: return_io_def)

lemma mf_throw: "List.map_filter f (fst (throw_io x)) = []"
  by (simp add: throw_io_def)

lemma mf_sys: "List.map_filter f (fst (sys E c)) = (case f (Call c (ok E c)) of None \<Rightarrow> [] | Some a \<Rightarrow> [a])"
  by (cases "f (Call c (ok E c))") (simp_all add: sys_def)

lemma mf_ask: "List.map_filter f (fst (ask E c)) = (case f (Call c (ok E c)) of None \<Rightarrow> [] | Some a \<Rightarrow> [a])"
  by (cases "f (Call c (ok E c))") (simp_all add: ask_def)

lemma mf_call_cb: "(\<And>v. f (Progress v) = None) \<Longrightarrow> List.map_filter f (fst (call_cb cb v)) = []"
  by (rule mf_nil, rule la_call_cb) simp

lemma mf_gen: "(\<And>n. f (RandomData n) = None) \<Longrightarrow> List.map_filter f (fst (generateSecureRandomData n)) = []"
  by (simp add: generateSecureRandomData_def emit_def)

lemma mf_emit1: "f e = None \<Longrightarrow> List.map_filter f (fst (emit [e])) = []"
  by (simp add: emit_def)

subsection \<open>Computations that follow a list of observations\<close>

lemma follows_quiet: "List.map_filter f (fst m) = [] \<Longrightarrow> follows f m []"
  by (simp add: follows_def)

lemma follows_bind:
  assumes "follows f m L1" and "\<And>x. follows f (g x) L2"
  shows "follows f (bind_io m g) (L1 @ L2)"
proof (cases "snd m")
  case (Inl e)
  then show ?thesis
    using assms(1) by (simp add: follows_def mf_bind snd_bind_io prefix_prefix)
next
  case (Inr x)
  then have "List.map_filter f (fst m) = L1"
    using assms(1) by (simp add: follows_def)
  then show ?thesis
    using Inr assms(2)[of x] by (simp add: follows_def mf_bind snd_bind_io)
qed

lemma follows_bind_q1:
  assumes "List.map_filter f (fst m) = []" and "\<And>x. follows f (g x) L"
  shows "follows f (bind_io m g) L"
  using follows_bind[OF follows_quiet[OF assms(1)], of g L] assms(2) by simp

lemma follows_bind_q2:
  assumes "follows f m L" and "\<And>x. List.map_filter f (fst (g x)) = []"
  shows "follows f (bind_io m g) L"
  using follows_bind[OF assms(1), of g "[]"] follows_quiet[OF assms(2)] by simp

lemma follows_finally:
  assumes "follows f m L" and "List.map_filter f (fst fin) = []"
  shows "follows f (finally_io m fin) L"
  using assms by (auto simp: follows_def mf_finally snd_finally_io split: sum.splits)

lemma follows_forEach:
  assumes "\<And>x. follows f (body x) (g x)"
  shows "follows f (forEach xs body) (concat (map g xs))"
proof (induction xs)
  case Nil
  show ?case by (simp add: follows_quiet mf_return)
next
  case (Cons x xs)
  show ?case
    using follows_bind[OF assms[of x], of "\<lambda>u. forEach xs body" "concat (map g xs)"] Cons.IH
    by simp
qed

lemma follows_sys:
  assumes "f (Call c True) = Some a" and "f (Call c False) = None"
  shows "follows f (sys E c) [a]"
  using assms by (simp add: follows_def sys_def)

lemma follows_rethrow:
  assumes "follows f m L" and "\<And>e. List.map_filter f (fst (h e)) = []"
    and "\<And>e. \<exists>e'. snd (h e) = Inl e'"
  shows "follows f (catch_io m h) L"
proof (cases "snd m")
  case (Inl e)
  obtain e' where "snd (h e) = Inl e'" using assms(3) by blast
  then show ?thesis
    using Inl assms(1,2) by (simp add: follows_def mf_catch snd_catch_io)
next
  case (Inr x)
  then show ?thesis
    using assms(1) by (simp add: follows_def mf_catch snd_catch_io)
qed

subsection \<open>The writes and flushes of a pass\<close>

lemma follows_rnd_if:
  "List.map_filter disk_op (fst (if b then generateSecureRandomData n else return_io ())) = []"
  by (simp add: mf_gen mf_return)

lemma follows_write_chunk:
  "follows disk_op (write_chunk E p pat cb s e fs bs i) [WriteSync p pat bs (i * bs)]"
  unfolding write_chunk_def
  by (intro follows_bind_q1 follows_bind_q2 follows_sys follows_rnd_if mf_call_cb) simp_all

lemma concat_singletons: "concat (map (\<lambda>i. [g i]) xs) = map g xs"
  by (induction xs) simp_all

lemma follows_chunks:
  "follows disk_op (forEach [0..<n] (write_chunk E p pat cb s e fs bs))
     (map (\<lambda>i. WriteSync p pat bs (i * bs)) [0..<n])"
  using follows_forEach[of disk_op "write_chunk E p pat cb s e fs bs" "\<lambda>i. [WriteSync p pat bs (i * bs)]" "[0..<n]"]
    follows_write_chunk[of E p pat cb s e fs bs]
  by (simp add: concat_singletons)

lemma follows_remainder:
  "follows disk_op
     (if r > 0 then
        bind_io (if pat = None then generateSecureRandomData r else return_io ()) (\<lambda>u.
        sys E (WriteSync p pat r pos))
      else return_io ())
     (if 0 < r then [WriteSync p pat r pos] else [])"
proof (cases "0 < r")
  case True
  have "follows disk_op (bind_io (if pat = None then generateSecureRandomData r else return_io ()) (\<lambda>u.
        sys E (WriteSync p pat r pos))) [WriteSync p pat r pos]"
    by (intro follows_bind_q1 follows_sys follows_rnd_if) simp_all
  then show ?thesis using True by simp
next
  case False
  then show ?thesis by (simp add: follows_quiet mf_return)
qed

lemma follows_fsync: "follows disk_op (sys E (FsyncSync p)) [FsyncSync p]"
  by (rule follows_sys) simp_all

lemma follows_owp:
  "follows disk_op (overwriteFileWithPattern E p pat cb s e) (pass_ops p (size_of E p) pat)"
proof -
  let ?fs = "size_of E p"
  let ?bs = "min (1024 * 1024) ?fs"
  have q1: "List.map_filter disk_op (fst (emit [OverwritePass p pat s e])) = []"
    by (rule mf_emit1) simp
  have q2: "List.map_filter disk_op (fst (sys E (StatSync p))) = []"
    "List.map_filter disk_op (fst (sys E (OpenSync p))) = []"
    "List.map_filter disk_op (fst (sys E (CloseSync p))) = []"
    by (simp_all add: mf_sys)
  show ?thesis
  proof (cases "?bs = 0")
    case True
    then have fs: "?fs = 0" by simp
    have po: "pass_ops p ?fs pat = [FsyncSync p]"
      by (simp add: pass_ops_def fs)
    have inner: "follows disk_op
        (bind_io (if pat = None then generateSecureRandomData n else return_io ()) (\<lambda>u.
         bind_io (return_io ()) (\<lambda>u.
         bind_io (return_io ()) (\<lambda>u. sys E (FsyncSync p))))) [FsyncSync p]" for n
      by (intro follows_bind_q1 follows_fsync follows_rnd_if) (simp_all add: mf_return)
    show ?thesis
      unfolding po overwriteFileWithPattern_def Let_def
      apply (rule follows_bind_q1[OF q1])
      apply (rule follows_bind_q1[OF q2(1)])
      apply (rule follows_bind_q1[OF q2(2)])
      apply (rule follows_finally[OF _ q2(3)])
      apply (simp only: True simp_thms if_True option.case prod.case forEach.simps)
      apply (rule inner)
      done
  next
    case False
    have po: "pass_ops p ?fs pat =
        map (\<lambda>i. WriteSync p pat ?bs (i * ?bs)) [0..<?fs div ?bs]
        @ ((if 0 < ?fs mod ?bs then [WriteSync p pat (?fs mod ?bs) (?fs div ?bs * ?bs)] else [])
        @ [FsyncSync p])"
      by (simp add: pass_ops_def Let_def)
    have tail: "follows disk_op
         (bind_io (if ?fs mod ?bs > 0 then
                     bind_io (if pat = None then generateSecureRandomData (?fs mod ?bs) else return_io ()) (\<lambda>u.
                     sys E (WriteSync p pat (?fs mod ?bs) (?fs div ?bs * ?bs)))
                   else return_io ()) (\<lambda>u. sys E (FsyncSync p)))
         ((if 0 < ?fs mod ?bs then [WriteSync p pat (?fs mod ?bs) (?fs div ?bs * ?bs)] else [])
          @ [FsyncSync p])"
      by (rule follows_bind) (rule follows_remainder, rule follows_fsync)
    have inner: "follows disk_op
        (bind_io (if pat = None then generateSecureRandomData ?bs else return_io ()) (\<lambda>u.
         bind_io (forEach [0..<?fs div ?bs] (write_chunk E p pat cb s e ?fs ?bs)) (\<lambda>u.
         bind_io (if ?fs mod ?bs > 0 then
                     bind_io (if pat = None then generateSecureRandomData (?fs mod ?bs) else return_io ()) (\<lambda>u.
                     sys E (WriteSync p pat (?fs mod ?bs) (?fs div ?bs * ?bs)))
                   else return_io ()) (\<lambda>u. sys E (FsyncSync p)))))
        (pass_ops p ?fs pat)"
      unfolding po
      by (intro follows_bind_q1 follows_bind follows_chunks tail follows_rnd_if)
    show ?thesis
      unfolding overwriteFileWithPattern_def Let_def
      apply (rule follows_bind_q1[OF q1])
      apply (rule follows_bind_q1[OF q2(1)])
      apply (rule follows_bind_q1[OF q2(2)])
      apply (rule follows_finally[OF _ q2(3)])
      apply (simp only: False if_False option.case prod.case)
      apply (rule inner)
      done
  qed
qed


lemma follows_wipe_step:
  "follows disk_op (wipe_step E p cb pats i) (pass_ops p (size_of E p) (pats ! i))"
  unfolding wipe_step_def Let_def by (rule follows_owp)

lemma follows_wipe_loop:
  "follows disk_op (forEach [0..<length pats] (wipe_step E p cb pats))
     (concat (map (pass_ops p (size_of E p)) pats))"
proof -
  have eq: "map (\<lambda>i. pass_ops p (size_of E p) (pats ! i)) [0..<length pats] = map (pass_ops p (size_of E p)) pats"
    by (rule nth_equalityI) simp_all
  have "follows disk_op (forEach [0..<length pats] (wipe_step E p cb pats))
     (concat (map (\<lambda>i. pass_ops p (size_of E p) (pats ! i)) [0..<length pats]))"
    by (rule follows_forEach) (rule follows_wipe_step)
  then show ?thesis
    by (simp only: eq)
qed

lemma follows_gutmann:
  "follows disk_op (performGutmannWipe E p cb)
     (concat (map (pass_ops p (size_of E p)) (map patternValue gutmannPatterns)))"
  unfolding performGutmannWipe_def catch_throw
  using follows_wipe_loop[where pats = "map patternValue gutmannPatterns"]
  by (simp only: length_map)

lemma follows_dod:
  "follows disk_op (performDoDWipeInternal E p cb)
     (concat (map (pass_ops p (size_of E p)) [Some 0, Some 255, None]))"
  unfolding dod_internal_unfold by (rule follows_wipe_loop)

lemma follows_quick:
  "follows disk_op (performQuickWipe E p cb) (pass_ops p (size_of E p) None)"
  unfolding performQuickWipe_def catch_throw by (rule follows_owp)

text \<open>The writes of a pass cover the file from its first byte to its last.\<close>

lemma sweep_chunks:
  "k \<le> n \<Longrightarrow>
   sweep p pat (k * bs) (map (\<lambda>i. WriteSync p pat bs (i * bs)) [k..<n] @ rest) = sweep p pat (n * bs) rest"
proof (induction "n - k" arbitrary: k)
  case 0
  then show ?case by simp
next
  case (Suc d)
  then have lt: "k < n" by simp
  have "sweep p pat (Suc k * bs) (map (\<lambda>i. WriteSync p pat bs (i * bs)) [Suc k..<n] @ rest)
      = sweep p pat (n * bs) rest"
    using Suc.hyps(2) lt by (intro Suc.hyps(1)) simp_all
  then show ?case
    using lt by (simp add: upt_conv_Cons add.commute)
qed

lemma sweep_pass_ops: "sweep p pat 0 (pass_ops p fs pat) = Some fs"
proof -
  let ?bs = "min (1024 * 1024) fs"
  have c: "sweep p pat (0 * ?bs) (map (\<lambda>i. WriteSync p pat ?bs (i * ?bs)) [0..<fs div ?bs] @ rest)
      = sweep p pat (fs div ?bs * ?bs) rest" for rest
    by (rule sweep_chunks) simp
  have d: "fs div ?bs * ?bs + fs mod ?bs = fs"
    by (rule div_mult_mod_eq)
  show ?thesis
  proof (cases "0 < fs mod ?bs")
    case True
    then show ?thesis
      unfolding pass_ops_def Let_def using c[of "[WriteSync p pat (fs mod ?bs) (fs div ?bs * ?bs), FsyncSync p]"] d
      by simp
  next
    case False
    then have "fs div ?bs * ?bs = fs" using d by simp
    then show ?thesis
      unfolding pass_ops_def Let_def using c[of "[FsyncSync p]"] False
      by simp
  qed
qed

subsection \<open>What the entry points observe\<close>

lemma la_validateFilePath_calls:
  assumes "\<And>b. P (Call (ExistsSync p) b)" "\<And>b. P (Call (OpenSync p) b)" "\<And>b. P (Call (CloseSync p) b)"
  shows "list_all P (fst (validateFilePath E p))"
  unfolding validateFilePath_def pathExists_def isFileLocked_def
  by (simp add: la_bind la_catch la_return assms ask_def sys_def)

lemma la_rename_fixed_calls:
  assumes "\<And>a b r. P (Call (RenameSync a b) r)" "\<And>n. P (RandomData n)"
  shows "list_all P (fst (rename_fixed E dir is p))"
  by (induction "is" arbitrary: p) (simp_all add: Let_def la_bind la_gen la_return assms sys_def)

lemma la_rename_shrinking_calls:
  assumes "\<And>a b r. P (Call (RenameSync a b) r)" "\<And>n. P (RandomData n)"
  shows "list_all P (fst (rename_shrinking E dir ext is p))"
  by (induction "is" arbitrary: p)
     (simp_all add: Let_def la_bind la_catch la_emit_rd la_return assms sys_def)

lemma la_secureDeleteFileName_calls:
  assumes "\<And>a b r. P (Call (RenameSync a b) r)" "\<And>a r. P (Call (UnlinkSync a) r)" "\<And>n. P (RandomData n)"
  shows "list_all P (fst (secureDeleteFileName E p))"
  unfolding secureDeleteFileName_def Let_def
  by (simp add: la_catch la_bind la_rename_shrinking_calls la_return assms sys_def)




text \<open>
  The static \<open>shredFile\<close> reaches its wipe when the file exists, \<open>stat\<close> succeeds, the size
  is within the limit and the temporary directory is created.  What is observed of its run
  is then what is observed of the wipe, the renames and the unlink.
\<close>

lemma shredFile_obs:
  assumes "\<And>b. f (Call (ExistsSync p) b) = None" "\<And>b. f (Call (StatSync p) b) = None"
    "\<And>b. f (Call (OpenSync p) b) = None" "\<And>b. f (Call (CloseSync p) b) = None"
    "\<And>b. f (Call CreateSecureTempDir b) = None" "\<And>b. f (Call CleanupTempDir b) = None"
    "\<And>v. f (Progress v) = None" "\<And>e. f (ConsoleError e) = None"
  shows "List.map_filter f (fst (shredFile E p m cb)) =
     (if ok E (ExistsSync p) \<and> ok E (StatSync p) \<and> size_of E p \<le> maxSize \<and> ok E CreateSecureTempDir
      then List.map_filter f (fst (bind_io (wipe_by_method E p m cb) (\<lambda>u.
             bind_io (rename_fixed E (path_dirname E p) [0..<10] p) (\<lambda>q. sys E (UnlinkSync q)))))
      else [])"
proof -
  have v: "List.map_filter f (fst (validateFilePath E p)) = []"
    by (rule mf_nil, rule la_validateFilePath_calls) (simp_all add: assms)
  obtain r where r: "snd (validateFilePath E p) = Inr r"
    using snd_validateFilePath by blast
  show ?thesis
    unfolding shredFile_def Let_def
    apply (simp only: mf_catch mf_bind mf_if v r sum.case ToBoolean.simps simp_thms if_False
        mf_throw mf_return mf_ask mf_sys assms option.case append_Nil append_Nil2 mf_call_cb
        snd_bind_io snd_if)
    apply (simp add: ask_def sys_def throw_io_def return_io_def emit_def snd_call_cb mf_call_cb assms
        split: sum.splits)
    done
qed

lemma shredFile_result:
  "snd (shredFile E p m cb) = Inr True \<longleftrightarrow>
     ok E (ExistsSync p) \<and> ok E (StatSync p) \<and> size_of E p \<le> maxSize \<and> ok E CreateSecureTempDir
     \<and> snd (bind_io (wipe_by_method E p m cb) (\<lambda>u.
             bind_io (rename_fixed E (path_dirname E p) [0..<10] p) (\<lambda>q. sys E (UnlinkSync q)))) = Inr ()"
proof -
  obtain r where r: "snd (validateFilePath E p) = Inr r"
    using snd_validateFilePath by blast
  show ?thesis
    unfolding shredFile_def Let_def
    apply (simp only: snd_catch_io snd_bind_io r sum.case ToBoolean.simps simp_thms if_False snd_if)
    apply (auto simp: ask_def sys_def throw_io_def return_io_def emit_def snd_call_cb
        split: sum.splits if_splits)
    done
qed

lemma shredSingleFile_obs:
  assumes "\<And>b. f (Call (ExistsSync p) b) = None"
  shows "List.map_filter f (fst (shredSingleFile E p cb)) =
     (if ok E (ExistsSync p)
      then List.map_filter f (fst (bind_io (performDoDWipe E p cb) (\<lambda>u. secureDeleteFileName E p)))
      else [])"
  unfolding shredSingleFile_def catch_throw
  by (simp add: mf_bind mf_ask assms mf_throw ask_def)

lemma shredSingleFile_result:
  "snd (shredSingleFile E p cb) =
     (if \<not> ok E (ExistsSync p) then Inl (FileNotExist p)
      else case snd (performDoDWipe E p cb) of Inl e \<Rightarrow> Inl e | Inr u \<Rightarrow> Inr ())"
  unfolding shredSingleFile_def catch_throw
  by (simp add: snd_bind_io ask_def throw_io_def snd_secureDeleteFileName split: sum.splits)

lemma mf_rename_fixed_disk: "List.map_filter disk_op (fst (rename_fixed E dir is p)) = []"
  by (rule mf_nil, rule la_rename_fixed_calls) simp_all

lemma mf_secureDeleteFileName_disk: "List.map_filter disk_op (fst (secureDeleteFileName E p)) = []"
  by (rule mf_nil, rule la_secureDeleteFileName_calls) simp_all

lemma follows_tail:
  assumes "follows disk_op w L"
  shows "follows disk_op (bind_io w (\<lambda>u. bind_io (rename_fixed E dir is p) (\<lambda>q. sys E (UnlinkSync q)))) L"
  using assms
  by (rule follows_bind_q2) (simp add: mf_bind mf_rename_fixed_disk mf_sys split: sum.splits)

lemma follows_shredFile:
  assumes "follows disk_op (wipe_by_method E p m cb) L"
  shows "prefix (disk_ops (fst (shredFile E p m cb))) L
       \<and> (snd (shredFile E p m cb) = Inr True \<longrightarrow> disk_ops (fst (shredFile E p m cb)) = L)"
proof -
  have o: "List.map_filter disk_op (fst (shredFile E p m cb)) =
     (if ok E (ExistsSync p) \<and> ok E (StatSync p) \<and> size_of E p \<le> maxSize \<and> ok E CreateSecureTempDir
      then List.map_filter disk_op (fst (bind_io (wipe_by_method E p m cb) (\<lambda>u.
             bind_io (rename_fixed E (path_dirname E p) [0..<10] p) (\<lambda>q. sys E (UnlinkSync q)))))
      else [])"
    by (rule shredFile_obs) simp_all
  show ?thesis
    using follows_tail[OF assms, of E "path_dirname E p" "[0..<10]" p] shredFile_result[of E p m cb]
    unfolding disk_ops_def o follows_def by auto
qed

lemma follows_shredSingleFile:
  "follows disk_op (shredSingleFile E p cb) (concat (map (pass_ops p (size_of E p)) [Some 0, Some 255, None]))"
proof -
  have o: "List.map_filter disk_op (fst (shredSingleFile E p cb)) =
     (if ok E (ExistsSync p)
      then List.map_filter disk_op (fst (bind_io (performDoDWipe E p cb) (\<lambda>u. secureDeleteFileName E p)))
      else [])"
    by (rule shredSingleFile_obs) simp
  have w: "follows disk_op (bind_io (performDoDWipe E p cb) (\<lambda>u. secureDeleteFileName E p))
      (concat (map (pass_ops p (size_of E p)) [Some 0, Some 255, None]))"
    unfolding performDoDWipe_def catch_throw
    by (rule follows_bind_q2, rule follows_dod) (rule mf_secureDeleteFileName_disk)
  show ?thesis
    using w unfolding follows_def o shredSingleFile_result
    by (auto simp: snd_bind_io snd_secureDeleteFileName performDoDWipe_def catch_throw split: sum.splits)
qed

section \<open>C1: the Gutmann sequence\<close>

text \<open>
  Claim C1.  A Gutmann wipe executes the passes of the table in order: four random passes,
  the 27 fixed bytes, four random passes.  The writes and flushes that a run has done are
  those of an initial segment of the 35 passes, and of all 35, each complete and each
  flushed, when the wipe returns; so it is for the static \<open>shredFile\<close> with method
  \<open>gutmann\<close>.  The writes of one pass carry the pattern of the pass and cover the file from
  offset 0 to its size.  The calls of \<open>overwriteFileWithPattern\<close> are made in the same
  order.
\<close>

theorem gutmann_pass_order:
  "map patternValue gutmannPatterns =
     [None, None, None, None,
      Some 0x55, Some 0xAA, Some 0x92, Some 0x49, Some 0x24, Some 0x92, Some 0x49, Some 0x24,
      Some 0x55, Some 0xAA, Some 0x92, Some 0x49, Some 0x24, Some 0x92, Some 0x49, Some 0x24,
      Some 0x55, Some 0xAA, Some 0x92, Some 0x49, Some 0x24, Some 0x92, Some 0x49, Some 0x24,
      Some 0x55, Some 0xAA, Some 0x92,
      None, None, None, None]
   \<and> prefix (disk_ops (fst (performGutmannWipe E filePath cb)))
        (concat (map (pass_ops filePath (size_of E filePath)) (map patternValue gutmannPatterns)))
   \<and> (snd (performGutmannWipe E filePath cb) = Inr () \<longrightarrow>
        disk_ops (fst (performGutmannWipe E filePath cb)) =
          concat (map (pass_ops filePath (size_of E filePath)) (map patternValue gutmannPatterns)))
   \<and> prefix (disk_ops (fst (shredFile E filePath ''gutmann'' cb)))
        (concat (map (pass_ops filePath (size_of E filePath)) (map patternValue gutmannPatterns)))
   \<and> (snd (shredFile E filePath ''gutmann'' cb) = Inr True \<longrightarrow>
        disk_ops (fst (shredFile E filePath ''gutmann'' cb)) =
          concat (map (pass_ops filePath (size_of E filePath)) (map patternValue gutmannPatterns)))
   \<and> sweep filePath pat 0 (pass_ops filePath n pat) = Some n
   \<and> prefix (map fst (passes (fst (shredFile E filePath ''gutmann'' cb))))
        (map patternValue gutmannPatterns)
   \<and> (snd (shredFile E filePath ''gutmann'' cb) = Inr True \<longrightarrow>
        map fst (passes (fst (shredFile E filePath ''gutmann'' cb))) = map patternValue gutmannPatterns)"
proof -
  have w: "wipe_by_method E filePath ''gutmann'' cb = performGutmannWipe E filePath cb"
    by (simp add: wipe_by_method_def)
  have g: "follows disk_op (performGutmannWipe E filePath cb)
     (concat (map (pass_ops filePath (size_of E filePath)) (map patternValue gutmannPatterns)))"
    by (rule follows_gutmann)
  have 1: "prefix (disk_ops (fst (performGutmannWipe E filePath cb)))
        (concat (map (pass_ops filePath (size_of E filePath)) (map patternValue gutmannPatterns)))"
    and 2: "snd (performGutmannWipe E filePath cb) = Inr () \<longrightarrow>
        disk_ops (fst (performGutmannWipe E filePath cb)) =
          concat (map (pass_ops filePath (size_of E filePath)) (map patternValue gutmannPatterns))"
    using g unfolding follows_def disk_ops_def by simp_all
  have 3: "prefix (disk_ops (fst (shredFile E filePath ''gutmann'' cb)))
        (concat (map (pass_ops filePath (size_of E filePath)) (map patternValue gutmannPatterns)))
     \<and> (snd (shredFile E filePath ''gutmann'' cb) = Inr True \<longrightarrow>
        disk_ops (fst (shredFile E filePath ''gutmann'' cb)) =
          concat (map (pass_ops filePath (size_of E filePath)) (map patternValue gutmannPatterns)))"
    by (rule follows_shredFile) (simp only: w g)
  have 4: "prefix (map fst (passes (fst (shredFile E filePath ''gutmann'' cb)))) (map patternValue gutmannPatterns)"
    using shredFile_passes[of E filePath "''gutmann''" cb] gutmann_prefix[of E filePath cb]
    by (auto simp: w)
  have 5: "snd (shredFile E filePath ''gutmann'' cb) = Inr True \<longrightarrow>
      map fst (passes (fst (shredFile E filePath ''gutmann'' cb))) = map patternValue gutmannPatterns"
    using shredFile_success[of E filePath "''gutmann''" cb] gutmann_ok[of E filePath cb]
    by (auto simp: w)
  show ?thesis
    using gutmann_values 1 2 3 4 5 sweep_pass_ops[of filePath pat n] by blast
qed


lemma pass_ops_small: "0 < n \<Longrightarrow> n \<le> 1024 * 1024 \<Longrightarrow> pass_ops p n pat = [WriteSync p pat n 0, FsyncSync p]"
  by (simp add: pass_ops_def Let_def min_def)

theorem gutmann_pass_order_witness:
  "snd (performGutmannWipe (env_ok 10) ''/tmp/t/a.txt'' None) = Inr ()
   \<and> snd (shredFile (env_ok 10) ''/tmp/t/a.txt'' ''gutmann'' None) = Inr True
   \<and> disk_ops (fst (shredFile (env_ok 10) ''/tmp/t/a.txt'' ''gutmann'' None)) =
        concat (map (\<lambda>pat. [WriteSync ''/tmp/t/a.txt'' pat 10 0, FsyncSync ''/tmp/t/a.txt''])
          [None, None, None, None,
      Some 0x55, Some 0xAA, Some 0x92, Some 0x49, Some 0x24, Some 0x92, Some 0x49, Some 0x24,
      Some 0x55, Some 0xAA, Some 0x92, Some 0x49, Some 0x24, Some 0x92, Some 0x49, Some 0x24,
      Some 0x55, Some 0xAA, Some 0x92, Some 0x49, Some 0x24, Some 0x92, Some 0x49, Some 0x24,
      Some 0x55, Some 0xAA, Some 0x92,
      None, None, None, None])
   \<and> sweep ''/tmp/t/a.txt'' (Some 0x55) 0
        [WriteSync ''/tmp/t/a.txt'' (Some 0x55) 10 0, FsyncSync ''/tmp/t/a.txt''] = Some 10
   \<and> map fst (passes (fst (shredFile (env_ok 10) ''/tmp/t/a.txt'' ''gutmann'' None))) =
        [None, None, None, None,
      Some 0x55, Some 0xAA, Some 0x92, Some 0x49, Some 0x24, Some 0x92, Some 0x49, Some 0x24,
      Some 0x55, Some 0xAA, Some 0x92, Some 0x49, Some 0x24, Some 0x92, Some 0x49, Some 0x24,
      Some 0x55, Some 0xAA, Some 0x92, Some 0x49, Some 0x24, Some 0x92, Some 0x49, Some 0x24,
      Some 0x55, Some 0xAA, Some 0x92,
      None, None, None, None]"
proof -
  have 1: "snd (performGutmannWipe (env_ok 10) ''/tmp/t/a.txt'' None) = Inr ()"
    by (rule snd_performGutmannWipe_ok) (rule env_ok_all)
  have 2: "snd (shredFile (env_ok 10) ''/tmp/t/a.txt'' ''gutmann'' None) = Inr True"
    by (rule snd_shredFile_ok) (simp_all add: env_ok_def maxSize_def)
  have sz: "size_of (env_ok 10) ''/tmp/t/a.txt'' = 10"
    by (simp add: env_ok_def)
  have po: "pass_ops ''/tmp/t/a.txt'' 10 = (\<lambda>pat. [WriteSync ''/tmp/t/a.txt'' pat 10 0, FsyncSync ''/tmp/t/a.txt''])"
    by (rule ext) (simp add: pass_ops_small)
  note t = gutmann_pass_order[of "env_ok 10" "''/tmp/t/a.txt''" None "Some 0x55" 10]
  have g: "map patternValue gutmannPatterns =
      [None, None, None, None,
      Some 0x55, Some 0xAA, Some 0x92, Some 0x49, Some 0x24, Some 0x92, Some 0x49, Some 0x24,
      Some 0x55, Some 0xAA, Some 0x92, Some 0x49, Some 0x24, Some 0x92, Some 0x49, Some 0x24,
      Some 0x55, Some 0xAA, Some 0x92, Some 0x49, Some 0x24, Some 0x92, Some 0x49, Some 0x24,
      Some 0x55, Some 0xAA, Some 0x92,
      None, None, None, None]"
    using t by blast
  have 3: "disk_ops (fst (shredFile (env_ok 10) ''/tmp/t/a.txt'' ''gutmann'' None)) =
          concat (map (pass_ops ''/tmp/t/a.txt'' 10) (map patternValue gutmannPatterns))"
    using t 2 unfolding sz by blast
  have 4: "sweep ''/tmp/t/a.txt'' (Some 0x55) 0 (pass_ops ''/tmp/t/a.txt'' 10 (Some 0x55)) = Some 10"
    using t by blast
  have 5: "map fst (passes (fst (shredFile (env_ok 10) ''/tmp/t/a.txt'' ''gutmann'' None))) =
      map patternValue gutmannPatterns"
    using t 2 by blast
  show ?thesis
    using 1 2 3 4 5 unfolding po g by simp
qed

section \<open>C7: the DoD sequence\<close>

text \<open>
  Claim C7.  The DoD wipe executes three passes in the order zero fill, one fill, random.
  Pass \<open>i\<close> of 3 is given the progress window from \<open>(i / 3) * 100\<close> to
  \<open>((i + 1) / 3) * 100\<close>, these being JavaScript expressions: the bounds are the doubles
  0, 33.33333333333333, 66.66666666666666 and 100.  The writes and flushes that a run has
  done are those of an initial segment of the three passes, and of all three when the wipe
  returns; so it is for a successful static \<open>shredFile\<close> with method \<open>dod\<close> and for a
  successful \<open>shredSingleFile\<close>.  The writes of one pass carry the pattern of the pass and
  cover the file from offset 0 to its size.
\<close>

theorem dod_three_passes:
  "js_mul (js_div 0 3) 100 = 0
   \<and> js_mul (js_div 1 3) 100 = 2345624805922133 / 70368744177664
   \<and> js_mul (js_div 2 3) 100 = 2345624805922133 / 35184372088832
   \<and> js_mul (js_div 3 3) 100 = 100
   \<and> prefix (passes (fst (performDoDWipeInternal E filePath cb)))
        [(Some 0, 0, 2345624805922133 / 70368744177664), (Some 255, 2345624805922133 / 70368744177664,
            2345624805922133 / 35184372088832), (None, 2345624805922133 / 35184372088832, 100)]
   \<and> (snd (performDoDWipeInternal E filePath cb) = Inr () \<longrightarrow>
        passes (fst (performDoDWipeInternal E filePath cb)) =
          [(Some 0, 0, 2345624805922133 / 70368744177664), (Some 255, 2345624805922133 / 70368744177664,
            2345624805922133 / 35184372088832), (None, 2345624805922133 / 35184372088832, 100)])
   \<and> (snd (shredFile E filePath ''dod'' cb) = Inr True \<longrightarrow>
        passes (fst (shredFile E filePath ''dod'' cb)) =
          [(Some 0, 0, 2345624805922133 / 70368744177664), (Some 255, 2345624805922133 / 70368744177664,
            2345624805922133 / 35184372088832), (None, 2345624805922133 / 35184372088832, 100)])
   \<and> (snd (shredSingleFile E filePath cb) = Inr () \<longrightarrow>
        passes (fst (shredSingleFile E filePath cb)) =
          [(Some 0, 0, 2345624805922133 / 70368744177664), (Some 255, 2345624805922133 / 70368744177664,
            2345624805922133 / 35184372088832), (None, 2345624805922133 / 35184372088832, 100)])
   \<and> prefix (disk_ops (fst (performDoDWipeInternal E filePath cb)))
        (concat (map (pass_ops filePath (size_of E filePath)) [Some 0, Some 255, None]))
   \<and> (snd (performDoDWipeInternal E filePath cb) = Inr () \<longrightarrow>
        disk_ops (fst (performDoDWipeInternal E filePath cb)) =
          concat (map (pass_ops filePath (size_of E filePath)) [Some 0, Some 255, None]))
   \<and> prefix (disk_ops (fst (shredFile E filePath ''dod'' cb)))
        (concat (map (pass_ops filePath (size_of E filePath)) [Some 0, Some 255, None]))
   \<and> (snd (shredFile E filePath ''dod'' cb) = Inr True \<longrightarrow>
        disk_ops (fst (shredFile E filePath ''dod'' cb)) =
          concat (map (pass_ops filePath (size_of E filePath)) [Some 0, Some 255, None]))
   \<and> prefix (disk_ops (fst (shredSingleFile E filePath cb)))
        (concat (map (pass_ops filePath (size_of E filePath)) [Some 0, Some 255, None]))
   \<and> (snd (shredSingleFile E filePath cb) = Inr () \<longrightarrow>
        disk_ops (fst (shredSingleFile E filePath cb)) =
          concat (map (pass_ops filePath (size_of E filePath)) [Some 0, Some 255, None]))
   \<and> sweep filePath pat 0 (pass_ops filePath n pat) = Some n"
proof -
  have a: "prefix (passes (fst (performDoDWipeInternal E filePath cb))) (wipe_plan [Some 0, Some 255, None])"
    unfolding dod_internal_unfold by (rule wipe_loop_prefix)
  have b: "snd (performDoDWipeInternal E filePath cb) = Inr () \<Longrightarrow>
        passes (fst (performDoDWipeInternal E filePath cb)) = wipe_plan [Some 0, Some 255, None]"
    unfolding dod_internal_unfold by (rule wipe_loop_ok)
  have w: "wipe_by_method E filePath ''dod'' cb = performDoDWipeInternal E filePath cb"
    by (simp add: wipe_by_method_def performDoDWipe_def catch_throw)
  have c: "snd (shredFile E filePath ''dod'' cb) = Inr True \<Longrightarrow>
        passes (fst (shredFile E filePath ''dod'' cb)) = wipe_plan [Some 0, Some 255, None]"
    using shredFile_success[of E filePath "''dod''" cb] b by (simp add: w)
  have d: "snd (shredSingleFile E filePath cb) = Inr () \<Longrightarrow>
        passes (fst (shredSingleFile E filePath cb)) = wipe_plan [Some 0, Some 255, None]"
    using shredSingleFile_success[of E filePath cb] b by (simp add: performDoDWipe_def catch_throw)
  have f1: "follows disk_op (performDoDWipeInternal E filePath cb)
      (concat (map (pass_ops filePath (size_of E filePath)) [Some 0, Some 255, None]))"
    by (rule follows_dod)
  have e1: "prefix (disk_ops (fst (performDoDWipeInternal E filePath cb)))
        (concat (map (pass_ops filePath (size_of E filePath)) [Some 0, Some 255, None]))"
    and e2: "snd (performDoDWipeInternal E filePath cb) = Inr () \<longrightarrow>
        disk_ops (fst (performDoDWipeInternal E filePath cb)) =
          concat (map (pass_ops filePath (size_of E filePath)) [Some 0, Some 255, None])"
    using f1 unfolding follows_def disk_ops_def by simp_all
  have e3: "prefix (disk_ops (fst (shredFile E filePath ''dod'' cb)))
        (concat (map (pass_ops filePath (size_of E filePath)) [Some 0, Some 255, None]))
     \<and> (snd (shredFile E filePath ''dod'' cb) = Inr True \<longrightarrow>
        disk_ops (fst (shredFile E filePath ''dod'' cb)) =
          concat (map (pass_ops filePath (size_of E filePath)) [Some 0, Some 255, None]))"
    by (rule follows_shredFile) (simp only: w f1)
  have e4: "prefix (disk_ops (fst (shredSingleFile E filePath cb)))
        (concat (map (pass_ops filePath (size_of E filePath)) [Some 0, Some 255, None]))"
    and e5: "snd (shredSingleFile E filePath cb) = Inr () \<longrightarrow>
        disk_ops (fst (shredSingleFile E filePath cb)) =
          concat (map (pass_ops filePath (size_of E filePath)) [Some 0, Some 255, None])"
    using follows_shredSingleFile[of E filePath cb] unfolding follows_def disk_ops_def by simp_all
  show ?thesis
    using a b c d e1 e2 e3 e4 e5 dod_windows sweep_pass_ops[of filePath pat n]
    unfolding dod_plan by blast
qed

theorem dod_three_passes_witness:
  "snd (performDoDWipeInternal (env_ok 10) ''/tmp/t/a.txt'' None) = Inr ()
   \<and> snd (shredFile (env_ok 10) ''/tmp/t/a.txt'' ''dod'' None) = Inr True
   \<and> snd (shredSingleFile (env_ok 10) ''/tmp/t/a.txt'' None) = Inr ()
   \<and> passes (fst (performDoDWipeInternal (env_ok 10) ''/tmp/t/a.txt'' None)) =
          [(Some 0, 0, 2345624805922133 / 70368744177664), (Some 255, 2345624805922133 / 70368744177664,
            2345624805922133 / 35184372088832), (None, 2345624805922133 / 35184372088832, 100)]
   \<and> passes (fst (shredFile (env_ok 10) ''/tmp/t/a.txt'' ''dod'' None)) =
          [(Some 0, 0, 2345624805922133 / 70368744177664), (Some 255, 2345624805922133 / 70368744177664,
            2345624805922133 / 35184372088832), (None, 2345624805922133 / 35184372088832, 100)]
   \<and> passes (fst (shredSingleFile (env_ok 10) ''/tmp/t/a.txt'' None)) =
          [(Some 0, 0, 2345624805922133 / 70368744177664), (Some 255, 2345624805922133 / 70368744177664,
            2345624805922133 / 35184372088832), (None, 2345624805922133 / 35184372088832, 100)]
   \<and> disk_ops (fst (performDoDWipeInternal (env_ok 10) ''/tmp/t/a.txt'' None)) =
        [WriteSync ''/tmp/t/a.txt'' (Some 0) 10 0, FsyncSync ''/tmp/t/a.txt'',
         WriteSync ''/tmp/t/a.txt'' (Some 255) 10 0, FsyncSync ''/tmp/t/a.txt'',
         WriteSync ''/tmp/t/a.txt'' None 10 0, FsyncSync ''/tmp/t/a.txt'']
   \<and> disk_ops (fst (shredFile (env_ok 10) ''/tmp/t/a.txt'' ''dod'' None)) =
        [WriteSync ''/tmp/t/a.txt'' (Some 0) 10 0, FsyncSync ''/tmp/t/a.txt'',
         WriteSync ''/tmp/t/a.txt'' (Some 255) 10 0, FsyncSync ''/tmp/t/a.txt'',
         WriteSync ''/tmp/t/a.txt'' None 10 0, FsyncSync ''/tmp/t/a.txt'']
   \<and> disk_ops (fst (shredSingleFile (env_ok 10) ''/tmp/t/a.txt'' None)) =
        [WriteSync ''/tmp/t/a.txt'' (Some 0) 10 0, FsyncSync ''/tmp/t/a.txt'',
         WriteSync ''/tmp/t/a.txt'' (Some 255) 10 0, FsyncSync ''/tmp/t/a.txt'',
         WriteSync ''/tmp/t/a.txt'' None 10 0, FsyncSync ''/tmp/t/a.txt'']"
proof -
  have 1: "snd (performDoDWipeInternal (env_ok 10) ''/tmp/t/a.txt'' None) = Inr ()"
    using snd_performDoDWipe_ok[OF env_ok_all, of 10 "''/tmp/t/a.txt''" None]
    by (simp add: performDoDWipe_def catch_throw)
  have 2: "snd (shredFile (env_ok 10) ''/tmp/t/a.txt'' ''dod'' None) = Inr True"
    by (rule snd_shredFile_ok) (simp_all add: env_ok_def maxSize_def)
  have 3: "snd (shredSingleFile (env_ok 10) ''/tmp/t/a.txt'' None) = Inr ()"
    by (rule snd_shredSingleFile_ok) (rule env_ok_all)
  have sz: "size_of (env_ok 10) ''/tmp/t/a.txt'' = 10"
    by (simp add: env_ok_def)
  have po: "concat (map (pass_ops ''/tmp/t/a.txt'' 10) [Some 0, Some 255, None]) =
        [WriteSync ''/tmp/t/a.txt'' (Some 0) 10 0, FsyncSync ''/tmp/t/a.txt'',
         WriteSync ''/tmp/t/a.txt'' (Some 255) 10 0, FsyncSync ''/tmp/t/a.txt'',
         WriteSync ''/tmp/t/a.txt'' None 10 0, FsyncSync ''/tmp/t/a.txt'']"
    by (simp add: pass_ops_small)
  note t = dod_three_passes[of "env_ok 10" "''/tmp/t/a.txt''" None "Some 0" 10]
  show ?thesis
    using 1 2 3 t unfolding sz po by blast
qed

subsection \<open>Which failures end a wipe\<close>

lemma blames_ok: "snd m = Inr x \<Longrightarrow> blames E K m"
  by (simp add: blames_def)

lemma blames_bind: "blames E K m \<Longrightarrow> (\<And>x. blames E K (g x)) \<Longrightarrow> blames E K (bind_io m g)"
  by (auto simp: blames_def snd_bind_io split: sum.splits)

lemma blames_finally: "blames E K m \<Longrightarrow> blames E K fin \<Longrightarrow> blames E K (finally_io m fin)"
  by (auto simp: blames_def snd_finally_io split: sum.splits)

lemma blames_forEach: "(\<And>x. blames E K (body x)) \<Longrightarrow> blames E K (forEach xs body)"
  by (induction xs) (simp_all add: blames_bind blames_ok snd_return)

lemma blames_sys: "K c \<Longrightarrow> blames E K (sys E c)"
  by (simp add: blames_def sys_def)

lemma blames_rnd_if: "blames E K (if b then generateSecureRandomData n else return_io ())"
  by (simp add: blames_ok snd_gen snd_return)

lemma blames_call_cb: "blames E K (call_cb cb v)"
  by (rule blames_ok) (rule snd_call_cb)

lemma blames_write_chunk: "blames E (pass_call p) (write_chunk E p pat cb s e fs bs i)"
  unfolding write_chunk_def
  by (intro blames_bind blames_sys blames_rnd_if blames_call_cb) simp

lemma snd_sys: "snd (sys E c) = (if ok E c then Inr () else Inl (FsError c))"
  by (simp add: sys_def)

lemma blames_remainder:
  "blames E (pass_call p) (case (fb, rb) of
                   (Some n, Some r) \<Rightarrow>
                     if r > 0 then
                       bind_io (if pat = None then generateSecureRandomData r else return_io ()) (\<lambda>u.
                       sys E (WriteSync p pat r (n * bs)))
                     else return_io ()
                 | _ \<Rightarrow> return_io ())"
  by (cases fb; cases rb) (simp_all add: blames_bind blames_sys blames_rnd_if blames_ok snd_return)

lemma blames_owp: "blames E (pass_call p) (overwriteFileWithPattern E p pat cb s e)"
  unfolding overwriteFileWithPattern_def Let_def
  apply (intro blames_bind blames_finally blames_forEach blames_write_chunk blames_remainder
      blames_sys blames_rnd_if)
      apply (simp_all add: blames_ok emit_def)
  done

lemma blames_dod: "blames E (pass_call p) (performDoDWipe E p cb)"
  unfolding performDoDWipe_def performDoDWipeInternal_def catch_throw Let_def
  by (rule blames_forEach) (simp add: wipe_step_def Let_def blames_owp)

lemma pass_calls_ok_write_chunk:
  assumes "\<And>c. pass_call p c \<Longrightarrow> ok E c"
  shows "snd (write_chunk E p pat cb s e fs bs i) = Inr ()"
  by (simp add: write_chunk_def snd_bind_io snd_sys_ok snd_call_cb snd_gen snd_return assms)

lemma pass_calls_ok_owp:
  assumes "\<And>c. pass_call p c \<Longrightarrow> ok E c"
  shows "snd (overwriteFileWithPattern E p pat cb s e) = Inr ()"
  unfolding overwriteFileWithPattern_def Let_def
  by (simp add: snd_bind_io snd_finally_io snd_sys_ok snd_gen snd_return snd_forEach_ok
      pass_calls_ok_write_chunk assms emit_def split: option.splits)

lemma pass_calls_ok_dod:
  assumes "\<And>c. pass_call p c \<Longrightarrow> ok E c"
  shows "snd (performDoDWipe E p cb) = Inr ()"
  unfolding performDoDWipe_def performDoDWipeInternal_def catch_throw Let_def
  by (rule snd_forEach_ok) (simp add: wipe_step_def Let_def pass_calls_ok_owp assms)

subsection \<open>The result of processing a node\<close>

lemma processItems_file_result:
  "snd (processItems E T cb q (FileNode nm) k) =
     (if \<not> ok E (StatSync q) then Inl (FsError (StatSync q))
      else if \<not> ok E (ExistsSync q) then Inl (FileNotExist q)
      else case snd (performDoDWipe E q (fileCallback cb T k)) of
             Inl e \<Rightarrow> Inl e
           | Inr u \<Rightarrow> Inr (k + 1))"
  by (simp add: snd_bind_io shredSingleFile_result snd_call_cb snd_return snd_sys split: sum.splits)

lemma processItems_dir_result:
  "snd (processItems E T cb q (DirNode nm subItems) k) =
     (if \<not> ok E (StatSync q) then Inl (FsError (StatSync q))
      else if \<not> ok E (ReaddirSync q) then Inl (FsError (ReaddirSync q))
      else case snd (processItemsList E T cb q subItems k) of
             Inl e \<Rightarrow> Inl e
           | Inr k' \<Rightarrow> Inr (k' + 1))"
  by (simp add: snd_bind_io snd_catch_rmdir snd_call_cb snd_return snd_sys split: sum.splits)

lemma shredDirectory_result:
  "snd (shredDirectory E d items cb) =
     (if \<not> ok E (ExistsSync d) then Inl (ShredDirFailed (DirNotExist d))
      else if \<not> ok E (ReaddirSync d) then Inl (ShredDirFailed (FsError (ReaddirSync d)))
      else case snd (countItemsList E d items 0) of
             Inl e \<Rightarrow> Inl (ShredDirFailed e)
           | Inr T \<Rightarrow>
               (case snd (processItemsList E T cb d items 0) of
                  Inl e \<Rightarrow> Inl (ShredDirFailed e)
                | Inr k \<Rightarrow> Inr ()))"
  unfolding shredDirectory_def
  by (simp add: snd_catch_io snd_bind_io snd_return ask_def snd_sys throw_io_def split: sum.splits)

subsection \<open>What a directory shred writes\<close>

lemma mf_queries: "list_all is_query t \<Longrightarrow> List.map_filter disk_op t = []"
proof (induction t)
  case Nil
  then show ?case by simp
next
  case (Cons x t)
  then show ?case by (cases x rule: is_query.cases) simp_all
qed

lemma mf_catch_rmdir: "List.map_filter disk_op (fst (catch_io (sys E (RmdirSync q)) (\<lambda>error. return_io ()))) = []"
  by (simp add: mf_catch mf_sys mf_return split: sum.splits)

lemma follows_file_in_tree:
  "follows disk_op (shredSingleFile E q cb) (dod_ops E q)"
  unfolding dod_ops_def by (rule follows_shredSingleFile)

lemma follows_process:
  "follows disk_op (processItems E T cb q node k) (concat (map (dod_ops E) (node_files E q node)))"
  "follows disk_op (processItemsList E T cb q items k) (concat (map (dod_ops E) (list_files E q items)))"
proof (induction E T cb q node k and E T cb q items k rule: processItems_processItemsList.induct)
  case (1 E totalItems progressCallback currentPath n subItems processedItems)
  have "follows disk_op
      (bind_io (processItemsList E totalItems progressCallback currentPath subItems processedItems)
         (\<lambda>processedItems'.
       bind_io (catch_io (sys E (RmdirSync currentPath)) (\<lambda>error. return_io ())) (\<lambda>u.
       bind_io (call_cb progressCallback
                  \<lfloor>js_mul (js_div (of_nat (processedItems' + 1)) (of_nat totalItems)) 100\<rfloor>) (\<lambda>u.
       return_io (processedItems' + 1)))))
      (concat (map (dod_ops E) (list_files E currentPath subItems)))"
    by (rule follows_bind_q2, rule 1) (simp add: mf_bind mf_catch_rmdir mf_call_cb mf_return split: sum.splits)
  then show ?case
    by (simp add: follows_bind_q1 mf_sys)
next
  case (2 E totalItems progressCallback currentPath n processedItems)
  have "follows disk_op
      (bind_io (shredSingleFile E currentPath (fileCallback progressCallback totalItems processedItems)) (\<lambda>u.
       bind_io (call_cb progressCallback
                  \<lfloor>js_mul (js_div (of_nat (processedItems + 1)) (of_nat totalItems)) 100\<rfloor>) (\<lambda>u.
       return_io (processedItems + 1))))
      (dod_ops E currentPath)"
    by (rule follows_bind_q2, rule follows_file_in_tree) (simp add: mf_bind mf_call_cb mf_return split: sum.splits)
  then show ?case
    by (simp add: follows_bind_q1 mf_sys)
next
  case (3 E totalItems progressCallback currentPath processedItems)
  show ?case by (simp add: follows_quiet mf_return)
next
  case (4 E totalItems progressCallback currentPath item rest processedItems)
  show ?case
    using follows_bind[OF "4.IH"(1), of "\<lambda>k'. processItemsList E totalItems progressCallback currentPath rest k'"
        "concat (map (dod_ops E) (list_files E currentPath rest))"] "4.IH"(2)
    by simp
qed

lemma follows_shredDirectory:
  "follows disk_op (shredDirectory E d items cb) (concat (map (dod_ops E) (list_files E d items)))"
proof -
  have c: "List.map_filter disk_op (fst (countItemsList E d items 0)) = []"
    by (rule mf_queries) (rule count_queries)
  have p: "follows disk_op
      (bind_io (processItemsList E T cb d items 0) (\<lambda>processedItems.
         catch_io (sys E (RmdirSync d)) (\<lambda>error. return_io ())))
      (concat (map (dod_ops E) (list_files E d items)))" for T
    by (rule follows_bind_q2, rule follows_process) (rule mf_catch_rmdir)
  have b: "follows disk_op
      (bind_io (ask E (ExistsSync d)) (\<lambda>ex.
        if \<not> ex then throw_io (DirNotExist d)
        else
        bind_io (sys E (ReaddirSync d)) (\<lambda>u.
        bind_io (countItemsList E d items 0) (\<lambda>totalItems.
        bind_io (processItemsList E totalItems cb d items 0) (\<lambda>processedItems.
        catch_io (sys E (RmdirSync d)) (\<lambda>error. return_io ()))))))
      (concat (map (dod_ops E) (list_files E d items)))"
  proof (rule follows_bind_q1)
    show "List.map_filter disk_op (fst (ask E (ExistsSync d))) = []"
      by (simp add: mf_ask)
  next
    fix ex
    show "follows disk_op
        (if \<not> ex then throw_io (DirNotExist d)
         else bind_io (sys E (ReaddirSync d)) (\<lambda>u.
              bind_io (countItemsList E d items 0) (\<lambda>totalItems.
              bind_io (processItemsList E totalItems cb d items 0) (\<lambda>processedItems.
              catch_io (sys E (RmdirSync d)) (\<lambda>error. return_io ())))))
        (concat (map (dod_ops E) (list_files E d items)))"
    proof (cases ex)
      case False
      then show ?thesis
        by (simp add: follows_def mf_throw throw_io_def)
    next
      case True
      have "follows disk_op
         (bind_io (sys E (ReaddirSync d)) (\<lambda>u.
              bind_io (countItemsList E d items 0) (\<lambda>totalItems.
              bind_io (processItemsList E totalItems cb d items 0) (\<lambda>processedItems.
              catch_io (sys E (RmdirSync d)) (\<lambda>error. return_io ())))))
         (concat (map (dod_ops E) (list_files E d items)))"
        by (intro follows_bind_q1 p c) (simp add: mf_sys)
      then show ?thesis using True by simp
    qed
  qed
  show ?thesis
    unfolding shredDirectory_def
    by (rule follows_rethrow[OF b]) (simp_all add: mf_throw throw_io_def)
qed

subsection \<open>Failures of the clean-up do not end the traversal\<close>

lemma cleanup_only_file:
  assumes H: "\<And>c. \<not> cleanup_call c \<Longrightarrow> ok E c"
  shows "snd (processItems E T cb q (FileNode nm) k) = Inr (k + 1)"
proof -
  have "snd (performDoDWipe E q (fileCallback cb T k)) = Inr ()"
  proof (rule pass_calls_ok_dod)
    fix c
    assume "pass_call q c"
    then have "\<not> cleanup_call c" by (cases c) simp_all
    then show "ok E c" by (rule H)
  qed
  then show ?thesis
    unfolding processItems_file_result using H[of "StatSync q"] H[of "ExistsSync q"] by simp
qed

lemma cleanup_only_process:
  assumes H: "\<And>c. \<not> cleanup_call c \<Longrightarrow> ok E c"
  shows "snd (processItems E T cb q node k) = Inr (k + leaf_units node)"
    "snd (processItemsList E T cb q items k) = Inr (k + sum_list (map leaf_units items))"
  using H
proof (induction E T cb q node k and E T cb q items k rule: processItems_processItemsList.induct)
  case (1 E totalItems progressCallback currentPath n subItems processedItems)
  have "snd (processItemsList E totalItems progressCallback currentPath subItems processedItems)
      = Inr (processedItems + sum_list (map leaf_units subItems))"
    by (rule 1) (rule "1.prems")
  then show ?case
    unfolding processItems_dir_result
    using "1.prems"[of "StatSync currentPath"] "1.prems"[of "ReaddirSync currentPath"] by simp
next
  case (2 E totalItems progressCallback currentPath n processedItems)
  show ?case
    using cleanup_only_file[of E totalItems progressCallback currentPath n processedItems] "2.prems"
    by simp
next
  case (3 E totalItems progressCallback currentPath processedItems)
  show ?case by (simp add: return_io_def)
next
  case (4 E totalItems progressCallback currentPath item rest processedItems)
  have a: "snd (processItems E totalItems progressCallback (path_join E currentPath (node_name item)) item
       processedItems) = Inr (processedItems + leaf_units item)"
    by (rule "4.IH"(1)) (rule "4.prems")
  have b: "snd (processItemsList E totalItems progressCallback currentPath rest (processedItems + leaf_units item))
       = Inr (processedItems + leaf_units item + sum_list (map leaf_units rest))"
    by (rule "4.IH"(2)) (rule "4.prems")
  show ?case
    using a b by (simp add: snd_bind_io add.assoc)
qed

lemma cleanup_only_directory:
  assumes H: "\<And>c. \<not> cleanup_call c \<Longrightarrow> ok E c"
  shows "snd (shredDirectory E d items cb) = Inr ()"
proof -
  have c: "snd (countItemsList E d items 0) = Inr (0 + sum_list (map leaf_units items))"
    by (rule count_total) (simp add: H)
  have p: "snd (processItemsList E (sum_list (map leaf_units items)) cb d items 0)
      = Inr (0 + sum_list (map leaf_units items))"
    by (rule cleanup_only_process) (rule H)
  show ?thesis
    unfolding shredDirectory_result using H[of "ExistsSync d"] H[of "ReaddirSync d"] c p by simp
qed


section \<open>C2: which failures end the traversal\<close>

text \<open>
  Claim C2, as the code has it.  \<open>processItems\<close> has no \<open>try\<close> around the shredding of a
  child.  A file fails when its \<open>stat\<close> fails, when it does not exist, or when its wipe
  fails, and the wipe fails exactly with the exception of a refused call of one of its
  passes (\<open>stat\<close>, \<open>open\<close>, \<open>write\<close>, \<open>fsync\<close>, \<open>close\<close> on the file).  A directory fails when
  its \<open>stat\<close> or \<open>readdir\<close> fails or when one of its children fails.  When a child fails
  after the children before it were processed, the loop over the children ends there with
  the error of that child: the children after it do not appear in the run; and
  \<open>shredDirectory\<close> fails with that error wrapped.

  The failures of the clean-up are caught and ignored: the obfuscation renames and the
  unlink of a file, and the removal of a directory.  They do not occur in the result of a
  node, and when every other call succeeds the directory shred returns and has written the
  three passes of the DoD wipe over every file of the tree, in the order of the traversal.
  Whatever fails, the writes and flushes of a run are an initial segment of these.
\<close>

theorem child_failure_aborts_traversal:
  "(snd (processItemsList E T cb d pre k) = Inr k1
      \<and> snd (processItems E T cb (path_join E d (node_name c)) c k1) = Inl e \<longrightarrow>
      processItemsList E T cb d (pre @ c # post) k =
           (fst (processItemsList E T cb d pre k)
            @ fst (processItems E T cb (path_join E d (node_name c)) c k1), Inl e))
   \<and> snd (processItems E T cb q (FileNode nm) k) =
       (if \<not> ok E (StatSync q) then Inl (FsError (StatSync q))
        else if \<not> ok E (ExistsSync q) then Inl (FileNotExist q)
        else case snd (performDoDWipe E q (fileCallback cb T k)) of
               Inl e \<Rightarrow> Inl e
             | Inr u \<Rightarrow> Inr (k + 1))
   \<and> ((\<forall>sc. pass_call q sc \<longrightarrow> ok E sc) \<longrightarrow> snd (performDoDWipe E q fcb) = Inr ())
   \<and> (snd (performDoDWipe E q fcb) = Inl e \<longrightarrow> (\<exists>sc. e = FsError sc \<and> pass_call q sc \<and> \<not> ok E sc))
   \<and> snd (processItems E T cb q (DirNode nm subItems) k) =
       (if \<not> ok E (StatSync q) then Inl (FsError (StatSync q))
        else if \<not> ok E (ReaddirSync q) then Inl (FsError (ReaddirSync q))
        else case snd (processItemsList E T cb q subItems k) of
               Inl e \<Rightarrow> Inl e
             | Inr k' \<Rightarrow> Inr (k' + 1))
   \<and> snd (shredDirectory E d items cb) =
       (if \<not> ok E (ExistsSync d) then Inl (ShredDirFailed (DirNotExist d))
        else if \<not> ok E (ReaddirSync d) then Inl (ShredDirFailed (FsError (ReaddirSync d)))
        else case snd (countItemsList E d items 0) of
               Inl e \<Rightarrow> Inl (ShredDirFailed e)
             | Inr T \<Rightarrow>
                 (case snd (processItemsList E T cb d items 0) of
                    Inl e \<Rightarrow> Inl (ShredDirFailed e)
                  | Inr k \<Rightarrow> Inr ()))
   \<and> prefix (disk_ops (fst (shredDirectory E d items cb)))
        (concat (map (dod_ops E) (list_files E d items)))
   \<and> ((\<forall>sc. \<not> cleanup_call sc \<longrightarrow> ok E sc) \<longrightarrow>
        snd (shredDirectory E d items cb) = Inr ()
        \<and> disk_ops (fst (shredDirectory E d items cb)) =
            concat (map (dod_ops E) (list_files E d items)))"
proof -
  have 1: "snd (processItemsList E T cb d pre k) = Inr k1
      \<and> snd (processItems E T cb (path_join E d (node_name c)) c k1) = Inl e \<longrightarrow>
      processItemsList E T cb d (pre @ c # post) k =
           (fst (processItemsList E T cb d pre k)
            @ fst (processItems E T cb (path_join E d (node_name c)) c k1), Inl e)"
    using processItemsList_abort[of E T cb d pre k k1 c e post] by blast
  have 3: "(\<forall>sc. pass_call q sc \<longrightarrow> ok E sc) \<longrightarrow> snd (performDoDWipe E q fcb) = Inr ()"
    using pass_calls_ok_dod[of q E fcb] by blast
  have 4: "snd (performDoDWipe E q fcb) = Inl e \<longrightarrow> (\<exists>sc. e = FsError sc \<and> pass_call q sc \<and> \<not> ok E sc)"
    using blames_dod[of E q fcb] unfolding blames_def by blast
  have f: "follows disk_op (shredDirectory E d items cb) (concat (map (dod_ops E) (list_files E d items)))"
    by (rule follows_shredDirectory)
  have 7: "prefix (disk_ops (fst (shredDirectory E d items cb)))
        (concat (map (dod_ops E) (list_files E d items)))"
    using f unfolding follows_def disk_ops_def by simp
  have 8: "(\<forall>sc. \<not> cleanup_call sc \<longrightarrow> ok E sc) \<longrightarrow>
        snd (shredDirectory E d items cb) = Inr ()
        \<and> disk_ops (fst (shredDirectory E d items cb)) =
            concat (map (dod_ops E) (list_files E d items))"
  proof
    assume H: "\<forall>sc. \<not> cleanup_call sc \<longrightarrow> ok E sc"
    have r: "snd (shredDirectory E d items cb) = Inr ()"
      by (rule cleanup_only_directory) (simp add: H)
    then show "snd (shredDirectory E d items cb) = Inr ()
        \<and> disk_ops (fst (shredDirectory E d items cb)) =
            concat (map (dod_ops E) (list_files E d items))"
      using f unfolding follows_def disk_ops_def by simp
  qed
  show ?thesis
    using 1 3 4 7 8
    unfolding processItems_file_result[of E T cb q nm k] processItems_dir_result[of E T cb q nm subItems k]
      shredDirectory_result[of E d items cb]
    by blast
qed

lemma dod_ops_small:
  "0 < size_of E q \<Longrightarrow> size_of E q \<le> 1024 * 1024 \<Longrightarrow>
   dod_ops E q =
     [WriteSync q (Some 0) (size_of E q) 0, FsyncSync q,
      WriteSync q (Some 255) (size_of E q) 0, FsyncSync q,
      WriteSync q None (size_of E q) 0, FsyncSync q]"
  by (simp add: dod_ops_def pass_ops_small)

theorem child_failure_aborts_traversal_witness:
  "snd (processItemsList (env_locked 10 ''/r/b'') 3 None ''/r'' [FileNode ''a''] 0) = Inr 1
   \<and> snd (processItems (env_locked 10 ''/r/b'') 3 None ''/r/b'' (FileNode ''b'') 1)
        = Inl (FsError (OpenSync ''/r/b''))
   \<and> snd (processItemsList (env_locked 10 ''/r/b'') 3 None ''/r''
          ([FileNode ''a''] @ FileNode ''b'' # [FileNode ''c'']) 0)
        = Inl (FsError (OpenSync ''/r/b''))
   \<and> snd (performDoDWipe (env_locked 10 ''/r/b'') ''/r/b'' None) = Inl (FsError (OpenSync ''/r/b''))
   \<and> pass_call ''/r/b'' (OpenSync ''/r/b'') \<and> \<not> ok (env_locked 10 ''/r/b'') (OpenSync ''/r/b'')
   \<and> snd (shredDirectory (env_locked 10 ''/r/b'') ''/r'' [FileNode ''a'', FileNode ''b'', FileNode ''c''] None)
        = Inl (ShredDirFailed (FsError (OpenSync ''/r/b'')))
   \<and> snd (performDoDWipe (env_no_cleanup 10) ''/r/a'' None) = Inr ()
   \<and> (\<forall>sc. ok (env_no_cleanup 10) sc = (\<not> cleanup_call sc))
   \<and> \<not> ok (env_no_cleanup 10) (UnlinkSync ''/r/a'')
   \<and> \<not> ok (env_no_cleanup 10) (RmdirSync ''/r/s'')
   \<and> snd (shredDirectory (env_no_cleanup 10) ''/r'' [FileNode ''a'', DirNode ''s'' [FileNode ''b'']] None)
        = Inr ()
   \<and> disk_ops (fst (shredDirectory (env_no_cleanup 10) ''/r'' [FileNode ''a'', DirNode ''s'' [FileNode ''b'']]
        None)) =
       [WriteSync ''/r/a'' (Some 0) 10 0, FsyncSync ''/r/a'',
        WriteSync ''/r/a'' (Some 255) 10 0, FsyncSync ''/r/a'',
        WriteSync ''/r/a'' None 10 0, FsyncSync ''/r/a'',
        WriteSync ''/r/s/b'' (Some 0) 10 0, FsyncSync ''/r/s/b'',
        WriteSync ''/r/s/b'' (Some 255) 10 0, FsyncSync ''/r/s/b'',
        WriteSync ''/r/s/b'' None 10 0, FsyncSync ''/r/s/b'']"
proof -
  let ?E = "env_locked 10 ''/r/b''"
  let ?F = "env_no_cleanup 10"
  let ?e = "FsError (OpenSync ''/r/b'')"
  let ?tree = "[FileNode ''a'', DirNode ''s'' [FileNode ''b'']]"
  have pj: "path_join ?E ''/r'' (node_name (FileNode ''b'')) = ''/r/b''"
    by (simp add: env_defs)
  have h1: "snd (processItemsList ?E 3 None ''/r'' [FileNode ''a''] 0) = Inr 1"
    by (simp add: eval_defs)
  have h3: "ok ?E (StatSync ''/r/b'')" "ok ?E (ExistsSync ''/r/b'')" "ok ?E (ExistsSync ''/r'')"
    "ok ?E (ReaddirSync ''/r'')" "\<not> ok ?E (OpenSync ''/r/b'')"
    by (simp_all add: env_defs)
  have h4: "snd (performDoDWipe ?E ''/r/b'' fcb) = Inl ?e" for fcb
    by (cases fcb) (simp_all add: eval_defs)
  have h5: "snd (countItemsList ?E ''/r'' [FileNode ''a'', FileNode ''b'', FileNode ''c''] 0) = Inr 3"
    by (simp add: env_defs io_defs)
  note a = child_failure_aborts_traversal[where E = ?E and T = 3 and cb = None and d = "''/r''" and
      pre = "[FileNode ''a'']" and k = 0 and ?k1.0 = 1 and c = "FileNode ''b''" and e = ?e and
      post = "[FileNode ''c'']" and q = "''/r/b''" and nm = "''b''" and fcb = None and
      items = "[FileNode ''a'', FileNode ''b'', FileNode ''c'']"]
  have h2: "snd (processItems ?E 3 None ''/r/b'' (FileNode ''b'') 0) = Inl ?e"
    using a h3 h4 by simp
  note a1 = child_failure_aborts_traversal[where E = ?E and T = 3 and cb = None and d = "''/r''" and
      pre = "[FileNode ''a'']" and k = 1 and q = "''/r/b''" and nm = "''b''"]
  have h2': "snd (processItems ?E 3 None ''/r/b'' (FileNode ''b'') 1) = Inl ?e"
    using a1 h3 h4 by simp
  have c1: "processItemsList ?E 3 None ''/r'' ([FileNode ''a''] @ FileNode ''b'' # [FileNode ''c'']) 0 =
           (fst (processItemsList ?E 3 None ''/r'' [FileNode ''a''] 0)
            @ fst (processItems ?E 3 None (path_join ?E ''/r'' (node_name (FileNode ''b''))) (FileNode ''b'') 1), Inl ?e)"
    using a h1 h2' unfolding pj by blast
  have c1': "snd (processItemsList ?E 3 None ''/r'' ([FileNode ''a''] @ FileNode ''b'' # [FileNode ''c'']) 0) = Inl ?e"
    unfolding c1 by simp
  have c1'': "snd (processItemsList ?E 3 None ''/r'' [FileNode ''a'', FileNode ''b'', FileNode ''c''] 0) = Inl ?e"
    using c1' by simp
  have c3: "snd (shredDirectory ?E ''/r'' [FileNode ''a'', FileNode ''b'', FileNode ''c''] None)
        = Inl (ShredDirFailed ?e)"
    using a h3 h5 c1'' by simp
  have g1: "\<forall>sc. \<not> cleanup_call sc \<longrightarrow> ok ?F sc"
    by (simp add: env_no_cleanup_def env_ok_def)
  have g2: "\<forall>sc. pass_call ''/r/a'' sc \<longrightarrow> ok ?F sc"
  proof (intro allI impI)
    fix sc
    assume "pass_call ''/r/a'' sc"
    then have "\<not> cleanup_call sc" by (cases sc) simp_all
    then show "ok ?F sc" using g1 by blast
  qed
  have g3: "\<not> ok ?F (UnlinkSync ''/r/a'')" "\<not> ok ?F (RmdirSync ''/r/s'')"
    by (simp_all add: env_no_cleanup_def env_ok_def)
  note b = child_failure_aborts_traversal[where E = ?F and q = "''/r/a''" and fcb = None and
      d = "''/r''" and items = ?tree and cb = None]
  have g4: "snd (performDoDWipe ?F ''/r/a'' None) = Inr ()"
    using b g2 by blast
  have g5: "snd (shredDirectory ?F ''/r'' ?tree None) = Inr ()"
    and g6: "disk_ops (fst (shredDirectory ?F ''/r'' ?tree None)) =
            concat (map (dod_ops ?F) (list_files ?F ''/r'' ?tree))"
    using b g1 by blast+
  have lf: "list_files ?F ''/r'' ?tree = [''/r/a'', ''/r/s/b'']"
    by (simp add: env_no_cleanup_def env_ok_def)
  have sz: "size_of ?F x = 10" for x
    by (simp add: env_no_cleanup_def env_ok_def)
  have d: "dod_ops ?F x =
     [WriteSync x (Some 0) 10 0, FsyncSync x,
      WriteSync x (Some 255) 10 0, FsyncSync x,
      WriteSync x None 10 0, FsyncSync x]" for x
    using dod_ops_small[of ?F x] by (simp add: sz)
  have g7: "disk_ops (fst (shredDirectory ?F ''/r'' ?tree None)) =
       [WriteSync ''/r/a'' (Some 0) 10 0, FsyncSync ''/r/a'',
        WriteSync ''/r/a'' (Some 255) 10 0, FsyncSync ''/r/a'',
        WriteSync ''/r/a'' None 10 0, FsyncSync ''/r/a'',
        WriteSync ''/r/s/b'' (Some 0) 10 0, FsyncSync ''/r/s/b'',
        WriteSync ''/r/s/b'' (Some 255) 10 0, FsyncSync ''/r/s/b'',
        WriteSync ''/r/s/b'' None 10 0, FsyncSync ''/r/s/b'']"
    unfolding g6 lf by (simp add: d)
  have pc: "pass_call ''/r/b'' (OpenSync ''/r/b'')" by simp
  have g0: "\<forall>sc. ok ?F sc = (\<not> cleanup_call sc)"
    by (simp add: env_no_cleanup_def env_ok_def)
  show ?thesis
    using h1 h2' c1' h4[of None] pc h3(5) c3 g4 g0 g3 g5 g7 by blast
qed

subsection \<open>The two rename loops\<close>




subsection \<open>The renames of the two paths\<close>









section \<open>C8: the scheme of each path\<close>



end
